theory Spec2Isabelle
  imports Main "HOL-Library.Word"
begin

unbundle bit_operations_syntax

section \<open>Go values shared by the packages\<close>

text \<open>
  Bytes are 8-bit words, runes are Go's \<open>int32\<close>, and Go's \<open>int\<close> (lengths, indices and
  cursors, which the source lets go below zero) is modelled by \<open>int\<close>: no length of a
  slice comes near the 64-bit bound.  An \<open>error\<close> value is its message, \<open>nil\<close> is
  \<open>None\<close>.  A run-time panic (an index or a slice bound out of range, a failed type
  assertion) is a value of its own, so that every place where the Go code can crash is
  a branch of the model.
\<close>

type_synonym byte = "8 word"
type_synonym rune = "32 word"
type_synonym error = string

datatype panic = IndexOutOfRange | SliceBoundsOutOfRange | TypeAssertionFailed

text \<open>The items that travel down a chain are \<open>interface{}\<close> values.\<close>

datatype item = Bytes "byte list" | Text string | Num int | Strings "string list" | Nil

text \<open>\<open>xs[i]\<close>, \<open>xs[i] = b\<close>, \<open>xs[n:]\<close> and \<open>xs[:l]\<close> with Go's bounds checks.\<close>

definition index :: "byte list \<Rightarrow> int \<Rightarrow> panic + byte" where
  "index xs i = (if 0 \<le> i \<and> i < int (length xs) then Inr (xs ! nat i) else Inl IndexOutOfRange)"

definition assign :: "byte list \<Rightarrow> int \<Rightarrow> byte \<Rightarrow> panic + byte list" where
  "assign xs i b =
     (if 0 \<le> i \<and> i < int (length xs) then Inr (xs[nat i := b]) else Inl IndexOutOfRange)"

definition slice_from :: "byte list \<Rightarrow> int \<Rightarrow> panic + byte list" where
  "slice_from xs n =
     (if 0 \<le> n \<and> n \<le> int (length xs) then Inr (drop (nat n) xs) else Inl SliceBoundsOutOfRange)"

definition slice_to :: "byte list \<Rightarrow> int \<Rightarrow> panic + byte list" where
  "slice_to xs l =
     (if 0 \<le> l \<and> l \<le> int (length xs) then Inr (take (nat l) xs) else Inl SliceBoundsOutOfRange)"

section \<open>The part of Go's \<open>unicode/utf8\<close> that the conduit calls\<close>

text \<open>
  \<open>unicode/utf8\<close> is Go's standard library, not code of the repository; the functions
  below follow its implementation (the \<open>first\<close> table of lead bytes, the accept ranges
  of the second byte, \<open>DecodeRune\<close>, \<open>DecodeLastRune\<close>, \<open>FullRune\<close>, \<open>RuneStart\<close>).
\<close>

definition RuneError :: rune where "RuneError = 0xFFFD"
definition RuneSelf :: rune where "RuneSelf = 0x80"
definition UTFMax :: int where "UTFMax = 4"

text \<open>
  \<open>first\<close>: per lead byte, the index of the accept range in the high nibble and the
  length of the encoding in the low one; \<open>0xF0\<close> marks ASCII and \<open>0xF1\<close> a byte that
  starts no encoding (both of size one).
\<close>

definition first :: "byte \<Rightarrow> byte" where
  "first b =
     (if b < 0x80 then 0xF0
      else if b < 0xC2 then 0xF1
      else if b < 0xE0 then 0x02
      else if b = 0xE0 then 0x13
      else if b < 0xED then 0x03
      else if b = 0xED then 0x23
      else if b < 0xF0 then 0x03
      else if b = 0xF0 then 0x34
      else if b < 0xF4 then 0x04
      else if b = 0xF4 then 0x44
      else 0xF1)"

definition acceptRanges :: "byte \<Rightarrow> byte \<times> byte" where
  "acceptRanges i =
     (if i = 0 then (0x80, 0xBF)
      else if i = 1 then (0xA0, 0xBF)
      else if i = 2 then (0x80, 0x9F)
      else if i = 3 then (0x90, 0xBF)
      else if i = 4 then (0x80, 0x8F)
      else (0, 0))"

definition RuneStart :: "byte \<Rightarrow> bool" where
  "RuneStart b = (b AND 0xC0 \<noteq> 0x80)"

definition DecodeRune :: "byte list \<Rightarrow> rune \<times> int" where
  "DecodeRune p =
     (let n = int (length p) in
      if n < 1 then (RuneError, 0)
      else
        let p0 = p ! 0; x = first p0 in
        if x \<ge> 0xF0 then ((if x = 0xF1 then RuneError else ucast p0), 1)
        else
          let sz = uint (x AND 7); accept = acceptRanges (drop_bit 4 x) in
          if n < sz then (RuneError, 1)
          else
            let b1 = p ! 1 in
            if b1 < fst accept \<or> snd accept < b1 then (RuneError, 1)
            else if sz \<le> 2 then (push_bit 6 (ucast (p0 AND 0x1F)) OR ucast (b1 AND 0x3F), 2)
            else
              let b2 = p ! 2 in
              if b2 < 0x80 \<or> 0xBF < b2 then (RuneError, 1)
              else if sz \<le> 3 then
                (push_bit 12 (ucast (p0 AND 0x0F)) OR push_bit 6 (ucast (b1 AND 0x3F))
                   OR ucast (b2 AND 0x3F), 3)
              else
                let b3 = p ! 3 in
                if b3 < 0x80 \<or> 0xBF < b3 then (RuneError, 1)
                else
                  (push_bit 18 (ucast (p0 AND 0x07)) OR push_bit 12 (ucast (b1 AND 0x3F))
                     OR push_bit 6 (ucast (b2 AND 0x3F)) OR ucast (b3 AND 0x3F), 4))"

text \<open>The backward scan of \<open>DecodeLastRune\<close> for the start of the last encoding.\<close>

function lastRuneStart :: "byte list \<Rightarrow> int \<Rightarrow> int \<Rightarrow> int" where
  "lastRuneStart p start lim =
     (if start \<ge> lim then
        (if RuneStart (p ! nat start) then start else lastRuneStart p (start - 1) lim)
      else start)"
  by pat_completeness auto
termination
  by (relation "measure (\<lambda>(p, start, lim). nat (start - lim + 1))") auto

declare lastRuneStart.simps [simp del]

definition DecodeLastRune :: "byte list \<Rightarrow> rune \<times> int" where
  "DecodeLastRune p =
     (let end = int (length p) in
      if end = 0 then (RuneError, 0)
      else
        let start = end - 1; r = (ucast (p ! nat start) :: rune) in
        if r < RuneSelf then (r, 1)
        else
          let lim = (if end - UTFMax < 0 then 0 else end - UTFMax);
              start = lastRuneStart p (start - 1) lim;
              start = (if start < 0 then 0 else start);
              (r, n) = DecodeRune (drop (nat start) p)
          in if start + n \<noteq> end then (RuneError, 1) else (r, n))"

definition FullRune :: "byte list \<Rightarrow> bool" where
  "FullRune p =
     (let n = int (length p) in
      if n = 0 then False
      else
        let x = first (p ! 0) in
        if n \<ge> uint (x AND 7) then True
        else
          let accept = acceptRanges (drop_bit 4 x) in
          if n > 1 \<and> (p ! 1 < fst accept \<or> snd accept < p ! 1) then True
          else if n > 2 \<and> (p ! 2 < 0x80 \<or> 0xBF < p ! 2) then True
          else False)"

section \<open>\<open>utils.Utf8Conduit\<close>\<close>

text \<open>
  The conduit's state: the leftover buffer \<open>lo\<close>, the encoded replacement character
  \<open>inv\<close> and the number \<open>idx\<close> of leftover bytes held.  (The fields carry the prefix
  \<open>u_\<close> because \<open>inv\<close> is a constant of HOL.)
\<close>

record Utf8Conduit =
  u_lo :: "byte list"
  u_inv :: "byte list"
  u_idx :: int

text \<open>
  \<open>utf8.EncodeRune(u.inv, utf8.RuneError)\<close> writes the three bytes \<open>EF BF BD\<close> of U+FFFD.
\<close>

definition NewUtf8Conduit :: Utf8Conduit where
  "NewUtf8Conduit =
     \<lparr>u_lo = replicate (nat UTFMax) 0, u_inv = [0xEF, 0xBF, 0xBD], u_idx = 0\<rparr>"

text \<open>
  What the conduit sends on \<open>trg\<close>.  A send hands over a slice, that is a view of an
  array and not a copy of its bytes: \<open>tmp\<close> is \<open>u.lo[:k]\<close>, a view of the first \<open>k\<close> bytes
  of the leftover buffer (\<open>append\<close> writes into the buffer itself, see \<open>append_tmp\<close>
  below), \<open>u.inv\<close> is the marker's array, and \<open>b2[:l]\<close> is a view of the chunk received,
  which the conduit never writes.  Each send is recorded by the array the slice views and
  by the bytes that it holds at the moment of the send; the number of these bytes is the
  length of the slice.
\<close>

datatype sent = FromTmp "byte list" | FromInv "byte list" | FromInput "byte list"

text \<open>The bytes of a slice at the moment it was sent.\<close>

fun at_send :: "sent \<Rightarrow> byte list" where
  "at_send (FromTmp bs) = bs"
| "at_send (FromInv bs) = bs"
| "at_send (FromInput bs) = bs"

text \<open>
  The bytes that the receiver of a slice reads from it when the conduit is in the state
  \<open>u\<close>: a slice of the leftover buffer shows what the buffer holds then, whatever it
  held at the send, because \<open>storeLeftOver\<close> and the next \<open>addLeftOver\<close> write the same
  array.  (The chunk received is the producer's array; it is taken as not written again,
  as with \<open>utils.Reader\<close>, which makes a new array for every chunk.)
\<close>

fun reads :: "Utf8Conduit \<Rightarrow> sent \<Rightarrow> byte list" where
  "reads u (FromTmp bs) = take (length bs) (u_lo u)"
| "reads u (FromInv bs) = take (length bs) (u_inv u)"
| "reads u (FromInput bs) = bs"

text \<open>
  \<open>for i := l; i < s; i++ { u.lo[u.idx] = bs[i]; u.idx++ }\<close>, the copy loop that
  \<open>storeLeftOver\<close> runs in two places.
\<close>

function storeLoop :: "Utf8Conduit \<Rightarrow> byte list \<Rightarrow> int \<Rightarrow> int \<Rightarrow> panic + Utf8Conduit" where
  "storeLoop u bs i s =
     (if i < s then
        (case index bs i of
           Inl e \<Rightarrow> Inl e
         | Inr b \<Rightarrow>
             (case assign (u_lo u) (u_idx u) b of
                Inl e \<Rightarrow> Inl e
              | Inr lo' \<Rightarrow> storeLoop (u\<lparr>u_lo := lo', u_idx := u_idx u + 1\<rparr>) bs (i + 1) s))
      else Inr u)"
  by pat_completeness auto
termination
  by (relation "measure (\<lambda>(u, bs, i, s). nat (s - i))") auto

declare storeLoop.simps [simp del]

text \<open>
  \<open>for ; l >= 0 && l > min; l-- { r, _ := utf8.DecodeLastRune(bs[:l]); if r != utf8.RuneError
  {...; return l} }\<close>: the result is the value of \<open>l\<close> at the exit and whether the exit
  was the \<open>return\<close> inside the loop.
\<close>

function scanBack :: "byte list \<Rightarrow> int \<Rightarrow> int \<Rightarrow> panic + (int \<times> bool)" where
  "scanBack bs lmin l =
     (if l \<ge> 0 \<and> l > lmin then
        (case slice_to bs l of
           Inl e \<Rightarrow> Inl e
         | Inr pre \<Rightarrow>
             if fst (DecodeLastRune pre) \<noteq> RuneError then Inr (l, True)
             else scanBack bs lmin (l - 1))
      else Inr (l, False))"
  by pat_completeness auto
termination
  by (relation "measure (\<lambda>(bs, lmin, l). nat (l + 1))") auto

declare scanBack.simps [simp del]

definition storeLeftOver :: "Utf8Conduit \<Rightarrow> byte list \<Rightarrow> panic + (Utf8Conduit \<times> int)" where
  "storeLeftOver u bs =
     (let s = int (length bs) in
      if s = 0 then Inr (u, 0)
      else if fst (DecodeLastRune bs) \<noteq> RuneError then Inr (u, s)
      else
        let l = s - 1 in
        if l = 0 then
          (case index bs l of
             Inl e \<Rightarrow> Inl e
           | Inr b \<Rightarrow>
               (case assign (u_lo u) (u_idx u) b of
                  Inl e \<Rightarrow> Inl e
                | Inr lo' \<Rightarrow> Inr (u\<lparr>u_lo := lo', u_idx := u_idx u + 1\<rparr>, s - 1)))
        else
          let lmin = s - UTFMax in
          (case scanBack bs lmin l of
             Inl e \<Rightarrow> Inl e
           | Inr (l, True) \<Rightarrow>
               (case storeLoop u bs l s of Inl e \<Rightarrow> Inl e | Inr u' \<Rightarrow> Inr (u', l))
           | Inr (l, False) \<Rightarrow>
               if u_idx u = UTFMax then Inr (u, s)
               else
                 let l = l + 1 in
                 (case storeLoop u bs l s of Inl e \<Rightarrow> Inl e | Inr u' \<Rightarrow> Inr (u', l))))"

text \<open>
  \<open>tmp = append(tmp, b)\<close> for a \<open>tmp\<close> that is a slice \<open>u.lo[:k]\<close> of the leftover buffer:
  while \<open>tmp\<close> is shorter than the buffer the byte is written into the buffer itself,
  beyond that Go allocates a new array and the buffer is left alone.
\<close>

definition append_tmp :: "byte list \<Rightarrow> byte list \<Rightarrow> byte \<Rightarrow> byte list \<times> byte list" where
  "append_tmp lo tmp b =
     ((if length tmp < length lo then lo[length tmp := b] else lo), tmp @ [b])"

text \<open>
  The loop of \<open>addLeftOver\<close> with the code after it; the result is the state, what was
  sent, and the cursor returned.
\<close>

function addLoop ::
  "Utf8Conduit \<Rightarrow> byte list \<Rightarrow> byte list \<Rightarrow> int \<Rightarrow> int \<Rightarrow> panic + (Utf8Conduit \<times> sent list \<times> int)"
where
  "addLoop u bs tmp i s =
     (if i < s \<and> u_idx u < UTFMax then
        (case index bs i of
           Inl e \<Rightarrow> Inl e
         | Inr b \<Rightarrow>
             (case append_tmp (u_lo u) tmp b of
                (lo', tmp') \<Rightarrow>
                  if FullRune tmp' then Inr (u\<lparr>u_lo := lo', u_idx := 0\<rparr>, [FromTmp tmp'], i + 1)
                  else addLoop (u\<lparr>u_lo := lo', u_idx := u_idx u + 1\<rparr>) bs tmp' (i + 1) s))
      else if u_idx u = UTFMax then Inr (u\<lparr>u_idx := 0\<rparr>, [FromInv (u_inv u)], i)
      else Inr (u, [], s))"
  by pat_completeness auto
termination
  by (relation "measure (\<lambda>(u, bs, tmp, i, s). nat (s - i))") auto

declare addLoop.simps [simp del]

definition addLeftOver ::
  "Utf8Conduit \<Rightarrow> byte list \<Rightarrow> panic + (Utf8Conduit \<times> sent list \<times> int)"
where
  "addLeftOver u bs =
     (if u_idx u = 0 then Inr (u, [], 0)
      else
        (case slice_to (u_lo u) (u_idx u) of
           Inl e \<Rightarrow> Inl e
         | Inr tmp \<Rightarrow> addLoop u bs tmp 0 (int (length bs))))"

text \<open>The body of the \<open>for inp := range src\<close> loop of \<open>Conduct\<close>, for one item.\<close>

definition conductItem :: "Utf8Conduit \<Rightarrow> item \<Rightarrow> panic + (Utf8Conduit \<times> sent list)" where
  "conductItem u inp =
     (case inp of
        Bytes bs \<Rightarrow>
          (case addLeftOver u bs of
             Inl e \<Rightarrow> Inl e
           | Inr (u1, out1, n) \<Rightarrow>
               (case slice_from bs n of
                  Inl e \<Rightarrow> Inl e
                | Inr b2 \<Rightarrow>
                    (case storeLeftOver u1 b2 of
                       Inl e \<Rightarrow> Inl e
                     | Inr (u2, l) \<Rightarrow>
                         (case slice_to b2 l of
                            Inl e \<Rightarrow> Inl e
                          | Inr blk \<Rightarrow>
                              Inr (u2, out1 @ (if length blk > 0 then [FromInput blk] else []))))))
      | _ \<Rightarrow> Inl TypeAssertionFailed)"

text \<open>
  \<open>Conduct\<close> on the items that arrive on \<open>src\<close> until it is closed: the final state, all
  that was sent on \<open>trg\<close> in order, and the error returned (always \<open>nil\<close>); or the panic
  that ends the goroutine.
\<close>

fun Conduct ::
  "Utf8Conduit \<Rightarrow> item list \<Rightarrow> panic + (Utf8Conduit \<times> sent list \<times> error option)"
where
  "Conduct u [] = Inr (u, [], None)"
| "Conduct u (inp # rest) =
     (case conductItem u inp of
        Inl e \<Rightarrow> Inl e
      | Inr (u1, out1) \<Rightarrow>
          (case Conduct u1 rest of
             Inl e \<Rightarrow> Inl e
           | Inr (u2, out2, err) \<Rightarrow> Inr (u2, out1 @ out2, err)))"

section \<open>Well-formed text, as the code tells it\<close>

text \<open>
  The conduit and the test's \<open>Utf8Consumer\<close> take a rune for valid when decoding it does
  not give \<open>utf8.RuneError\<close>.  \<open>good c\<close>: the bytes \<open>c\<close> are exactly one encoding that
  \<open>utf8.DecodeRune\<close> decodes to a rune other than \<open>RuneError\<close>.  \<open>partial p\<close>: \<open>p\<close> is a
  proper prefix of such an encoding (the empty prefix included).
\<close>

definition good :: "byte list \<Rightarrow> bool" where
  "good c = (c \<noteq> [] \<and> fst (DecodeRune c) \<noteq> RuneError \<and> snd (DecodeRune c) = int (length c))"

definition partial :: "byte list \<Rightarrow> bool" where
  "partial p = (\<exists>q. q \<noteq> [] \<and> good (p @ q))"

text \<open>A continuation byte \<open>10xxxxxx\<close>.\<close>

definition cont :: "byte \<Rightarrow> bool" where
  "cont b = (0x80 \<le> b \<and> b \<le> 0xBF)"

text \<open>
  The leftover bytes a conduit holds, and the shape of its state between two chunks: a
  buffer of \<open>utf8.UTFMax\<close> bytes of which at most three are in use.
\<close>

definition held :: "Utf8Conduit \<Rightarrow> byte list" where
  "held u = take (nat (u_idx u)) (u_lo u)"

definition u_ok :: "Utf8Conduit \<Rightarrow> bool" where
  "u_ok u = (length (u_lo u) = 4 \<and> 0 \<le> u_idx u \<and> u_idx u \<le> 3)"

text \<open>
  The test's \<open>Utf8Consumer.Consume\<close> decodes each chunk it receives rune by rune with
  \<open>utf8.DecodeRune\<close> and fails on the first \<open>utf8.RuneError\<close>; \<open>decodable bs\<close> says that
  this loop runs through \<open>bs\<close> without failing.  A decoding step consumes at least one
  byte, which is why the loop ends.
\<close>

lemma DecodeRune_size_pos: "p \<noteq> [] \<Longrightarrow> 1 \<le> snd (DecodeRune p)"
  by (simp add: DecodeRune_def Let_def)

lemma DecodeRune_shorter:
  assumes "bs \<noteq> []" "(r, n) = DecodeRune bs"
  shows "length bs - nat n < length bs"
proof -
  have "snd (DecodeRune bs) = n"
    using assms(2) by (metis snd_conv)
  then have "1 \<le> n"
    using DecodeRune_size_pos [OF assms(1)] by simp
  moreover have "0 < length bs"
    using assms(1) by simp
  ultimately show ?thesis
    by simp
qed

function decodable :: "byte list \<Rightarrow> bool" where
  "decodable bs =
     (if bs = [] then True
      else
        (case DecodeRune bs of
           (r, n) \<Rightarrow> if r = RuneError then False else decodable (drop (nat n) bs)))"
  by pat_completeness auto
termination
  by (relation "measure length") (auto simp: DecodeRune_shorter)

declare decodable.simps [simp del]

text \<open>
  Valid UTF-8 in the sense of the package documentation of \<open>unicode/utf8\<close>: no decoding
  step meets an invalid encoding, which \<open>DecodeRune\<close> reports as \<open>(RuneError, 1)\<close>.  The
  valid three-byte encoding \<open>EF BF BD\<close> of U+FFFD decodes to \<open>(RuneError, 3)\<close>.
\<close>

function valid_utf8 :: "byte list \<Rightarrow> bool" where
  "valid_utf8 bs =
     (if bs = [] then True
      else
        (case DecodeRune bs of
           (r, n) \<Rightarrow> if r = RuneError \<and> n = 1 then False else valid_utf8 (drop (nat n) bs)))"
  by pat_completeness auto
termination
  by (relation "measure length") (auto simp: DecodeRune_shorter)

declare valid_utf8.simps [simp del]

section \<open>Package \<open>conduit\<close>: the chain\<close>

text \<open>
  \<open>Chain\<close>: the buffer size \<open>sz\<close>, the flag \<open>e\<close> (there were errors), the producer \<open>p\<close>,
  the consumer \<open>c\<close>, the conduits \<open>pipe\<close> and the errors \<open>Errs\<close>.  The fields carry the
  prefix \<open>ch_\<close>; the mutex \<open>door\<close> has no field, a call of \<open>addErr\<close> is one atomic step.
  \<open>Producer\<close>, \<open>Consumer\<close> and \<open>Conduit\<close> are interface values; where the code compares
  one with \<open>nil\<close> it is an \<open>option\<close>.  A \<open>nil\<close> slice is the empty list.
\<close>

record ('p, 'k, 'c) Chain =
  ch_sz :: "32 word"
  ch_e :: bool
  ch_p :: 'p
  ch_c :: 'c
  ch_pipe :: "'k list"
  ch_Errs :: "error list"

text \<open>
  \<open>NewChain\<close> returns \<open>nil\<close> when the producer or the consumer is \<open>nil\<close>;
  \<open>new(Chain)\<close> is never \<open>nil\<close>.
\<close>

definition NewChain ::
  "'p option \<Rightarrow> 'k list \<Rightarrow> 'c option \<Rightarrow> 32 word \<Rightarrow> ('p, 'k, 'c) Chain option"
where
  "NewChain p pipe c sz =
     (case p of
        None \<Rightarrow> None
      | Some p' \<Rightarrow>
          (case c of
             None \<Rightarrow> None
           | Some c' \<Rightarrow>
               Some \<lparr>ch_sz = sz, ch_e = False, ch_p = p', ch_c = c', ch_pipe = pipe, ch_Errs = []\<rparr>))"

text \<open>\<open>reset\<close> and \<open>addErr\<close>.\<close>

definition reset :: "('p, 'k, 'c) Chain \<Rightarrow> ('p, 'k, 'c) Chain" where
  "reset ch = ch\<lparr>ch_Errs := [], ch_e := False\<rparr>"

definition addErr :: "('p, 'k, 'c) Chain \<Rightarrow> error \<Rightarrow> ('p, 'k, 'c) Chain" where
  "addErr ch err = (let ch1 = (if \<not> ch_e ch then ch\<lparr>ch_e := True\<rparr> else ch)
                    in ch1\<lparr>ch_Errs := ch_Errs ch1 @ [err]\<rparr>)"

section \<open>\<open>utils.Printer\<close>\<close>

text \<open>
  \<open>Printer.Consume\<close> writes one line per item to its stream: in text mode the bytes of
  the item, which it asserts to be a \<open>[]byte\<close>, otherwise the item formatted with \<open>%v\<close>.
  The formatting of \<open>fmt\<close> is not part of the repository and is a parameter; the result
  is the list of lines written and the error returned (always \<open>nil\<close>), or the panic of
  the type assertion.
\<close>

fun Printer_Consume ::
  "(item \<Rightarrow> byte list) \<Rightarrow> bool \<Rightarrow> item list \<Rightarrow> panic + (byte list list \<times> error option)"
where
  "Printer_Consume fmt_v text [] = Inr ([], None)"
| "Printer_Consume fmt_v text (inp # rest) =
     (if text then
        (case inp of
           Bytes buf \<Rightarrow>
             (case Printer_Consume fmt_v text rest of
                Inl e \<Rightarrow> Inl e
              | Inr (w, err) \<Rightarrow> Inr ((buf @ [0x0A]) # w, err))
         | _ \<Rightarrow> Inl TypeAssertionFailed)
      else
        (case Printer_Consume fmt_v text rest of
           Inl e \<Rightarrow> Inl e
         | Inr (w, err) \<Rightarrow> Inr ((fmt_v inp @ [0x0A]) # w, err)))"

text \<open>Whether an item is a \<open>[]byte\<close>, which is what both type assertions ask for.\<close>

fun isBytes :: "item \<Rightarrow> bool" where
  "isBytes (Bytes bs) = True"
| "isBytes _ = False"

section \<open>\<open>Chain.Run\<close>: goroutines and channels\<close>

text \<open>
  A channel: the items in it (the head is received next), its capacity and whether it is
  closed.  \<open>make(chan interface{}, ch.sz)\<close> gives an empty open channel; Go's \<open>make\<close>
  never returns \<open>nil\<close>, so the branches of \<open>Run\<close> and \<open>runPipe\<close> that return "cannot create
  channel" are not reached and have no counterpart here.
\<close>

record chan =
  chan_buf :: "item list"
  chan_cap :: nat
  chan_closed :: bool

definition make_chan :: "32 word \<Rightarrow> chan" where
  "make_chan sz = \<lparr>chan_buf = [], chan_cap = unat sz, chan_closed = False\<rparr>"

text \<open>
  Whether a send on the channel can go through; \<open>ready\<close> says that the goroutine that
  reads the channel is waiting at its receive.  A buffered channel takes an item while
  its buffer is not full.  A channel of capacity 0 has no buffer: the send goes through
  when the reader is waiting, and the item is then the reader's; here it lies in the
  channel until the reader, which can do nothing else, takes its next step.
\<close>

definition can_send :: "chan \<Rightarrow> bool \<Rightarrow> bool" where
  "can_send c ready \<longleftrightarrow>
     length (chan_buf c) < chan_cap c \<or> (chan_cap c = 0 \<and> chan_buf c = [] \<and> ready)"

text \<open>
  The stages that the repository has, by what they do on their channels.  A producer
  sends a finite sequence of items and returns an error or \<open>nil\<close> (the tests'
  \<open>BaseProducer\<close>, \<open>utils.Generic\<close>, \<open>utils.Reader\<close>, \<open>utils.CSV\<close>).  A conduit is
  \<open>utils.Identity\<close> (the tests' \<open>BaseConduit\<close> is the same code), the tests' \<open>ErrConduit\<close>,
  \<open>utils.Filter\<close> with its sieve, or \<open>utils.Transformer\<close> with its transform (an item and
  an error for every item).  A consumer receives until its source is closed and then
  returns an error or \<open>nil\<close> (the tests' \<open>BaseConsumer\<close>, \<open>utils.Printer\<close> and \<open>utils.CSW\<close>
  return \<open>nil\<close>).  The tests' \<open>BufConduit\<close>, which collects five items before it sends
  them on, is not among the conduits here, nor is \<open>utils.Utf8Conduit\<close>, which is treated
  above; type assertions are left out of the stages here.
\<close>

datatype producer = Emits "item list" "error option"
datatype conduit =
  Identity | ErrConduit | Filter "item \<Rightarrow> bool" | Transformer "item \<Rightarrow> item \<times> error option"
datatype consumer = Collects "error option"

definition errMsg :: error where
  "errMsg = ''random error''"

text \<open>
  What the body of a conduit's \<open>for inp := range src\<close> loop does with an item: send an
  item on, go on to the next item, or return an error.  \<open>ErrConduit\<close> draws a random number
  for every item and returns the error \<open>errMsg\<close> when it is a multiple of ten; \<open>zero\<close>
  says that it is.  For the other conduits nothing is drawn, and there is no reaction with
  \<open>zero\<close>.  \<open>Transformer\<close> returns the error of its transform if there is one, skips
  the item when the transform gives \<open>nil\<close>, and sends the result on otherwise.
\<close>

datatype reaction = Forward item | Skip | Abort error

fun react :: "conduit \<Rightarrow> bool \<Rightarrow> item \<Rightarrow> reaction option" where
  "react Identity zero x = (if zero then None else Some (Forward x))"
| "react ErrConduit zero x = Some (if zero then Abort errMsg else Forward x)"
| "react (Filter f) zero x = (if zero then None else Some (if f x then Forward x else Skip))"
| "react (Transformer t) zero x =
     (if zero then None
      else Some (case t x of
                   (oup, Some e) \<Rightarrow> Abort e
                 | (oup, None) \<Rightarrow> if oup = Nil then Skip else Forward oup))"

text \<open>The conduits whose \<open>Conduct\<close> has no \<open>return\<close> of an error.\<close>

fun cannot_fail :: "conduit \<Rightarrow> bool" where
  "cannot_fail Identity = True"
| "cannot_fail (Filter f) = True"
| "cannot_fail ErrConduit = False"
| "cannot_fail (Transformer t) = False"

text \<open>
  Where each goroutine stands.  The producer's goroutine (the \<open>go func\<close> of \<open>Run\<close>): inside
  \<open>Produce\<close> with the items still to send and the error it will return, back from
  \<open>Produce\<close> with \<open>perr\<close>, at the deferred \<open>close(c1)\<close>, finished.  A conduit's goroutine
  (\<open>pipe2pipe\<close>): inside \<open>Conduct\<close> at the receive of the \<open>range\<close> loop, inside \<open>Conduct\<close>
  with an item that it is about to send, back from \<open>Conduct\<close> with \<open>err\<close>, at the deferred
  \<open>close(trg)\<close>, finished.  The goroutine that called \<open>Run\<close>: inside \<open>Consume\<close> with the
  items received so far, back from \<open>Consume\<close> with \<open>cerr\<close>, at \<open>if (ch.e)\<close>, returned from
  \<open>Run\<close> with its result.
\<close>

datatype pstate = PSend "item list" "error option" | PReturned "error option" | PClose | PDone
datatype cstate = CRecv | CHold item | CReturned "error option" | CClose | CDone
datatype sstate =
  SRecv "item list" | SReturned "item list" "error option" | SCheck "item list"
  | SDone "item list" "error option"

text \<open>
  The goroutines that \<open>Run\<close> starts, with the channels between them, from the producer
  outwards: \<open>Source\<close> is the producer's goroutine with the channel \<open>c1\<close> that it writes,
  \<open>Stage up k st c\<close> the goroutine of the conduit \<open>k\<close>, which reads the channel that \<open>up\<close>
  writes and writes \<open>c\<close>.  The consumer reads the outermost channel.
\<close>

datatype pipe = Source pstate chan | Stage pipe conduit cstate chan

fun out_chan :: "pipe \<Rightarrow> chan" where
  "out_chan (Source ps c) = c"
| "out_chan (Stage up k st c) = c"

fun set_out :: "pipe \<Rightarrow> chan \<Rightarrow> pipe" where
  "set_out (Source ps c) c' = Source ps c'"
| "set_out (Stage up k st c) c' = Stage up k st c'"

fun plen :: "pipe \<Rightarrow> nat" where
  "plen (Source ps c) = 0"
| "plen (Stage up k st c) = Suc (plen up)"

type_synonym chain = "(producer, conduit, consumer) Chain"

text \<open>
  \<open>runPipe\<close>: for every conduit of the pipe, in order, a new channel and a goroutine that
  reads the channel made before and writes the new one.
\<close>

definition runPipe :: "chain \<Rightarrow> pipe \<Rightarrow> pipe" where
  "runPipe ch c0 = foldl (\<lambda>src p. Stage src p CRecv (make_chan (ch_sz ch))) c0 (ch_pipe ch)"

text \<open>
  What the scheduler picks: goroutine \<open>n\<close> takes its next step (0 is the producer, \<open>n\<close>
  the \<open>n\<close>-th conduit); the conduit \<open>n\<close>, an \<open>ErrConduit\<close>, receives an item and draws a
  multiple of ten; the goroutine that called \<open>Run\<close> takes its next step.  The result is
  \<open>None\<close> when the goroutine picked cannot move: its channel is full or empty, or it has
  finished.  \<open>addErr\<close> holds the mutex and is one step; so is each channel operation.
\<close>

datatype action = Go nat | Fail nat | Main

text \<open>
  The producer's goroutine:
  \<open>go func() { defer close(c1); perr := ch.p.Produce(c1); if perr != nil { ch.addErr(perr) } }()\<close>.
\<close>

fun prod_step :: "pstate \<Rightarrow> chan \<Rightarrow> bool \<Rightarrow> chain \<Rightarrow> (pstate \<times> chan \<times> chain) option" where
  "prod_step (PSend (x # xs) err) c ready ch =
     (if can_send c ready then Some (PSend xs err, c\<lparr>chan_buf := chan_buf c @ [x]\<rparr>, ch)
      else None)"
| "prod_step (PSend [] err) c ready ch = Some (PReturned err, c, ch)"
| "prod_step (PReturned err) c ready ch =
     Some (PClose, c, (case err of None \<Rightarrow> ch | Some e \<Rightarrow> addErr ch e))"
| "prod_step PClose c ready ch = Some (PDone, c\<lparr>chan_closed := True\<rparr>, ch)"
| "prod_step PDone c ready ch = None"

text \<open>
  A conduit's goroutine, \<open>pipe2pipe\<close>:
  \<open>defer close(trg); err := p.Conduct(src, trg); if err != nil { ch.addErr(err) }\<close>,
  with its source \<open>src\<close> and its target \<open>trg\<close>.
\<close>

fun cond_step ::
  "bool \<Rightarrow> conduit \<Rightarrow> cstate \<Rightarrow> chan \<Rightarrow> chan \<Rightarrow> bool \<Rightarrow> chain
    \<Rightarrow> (chan \<times> cstate \<times> chan \<times> chain) option"
where
  "cond_step zero k CRecv src trg ready ch =
     (case chan_buf src of
        x # xs \<Rightarrow>
          (case react k zero x of
             None \<Rightarrow> None
           | Some (Forward y) \<Rightarrow> Some (src\<lparr>chan_buf := xs\<rparr>, CHold y, trg, ch)
           | Some Skip \<Rightarrow> Some (src\<lparr>chan_buf := xs\<rparr>, CRecv, trg, ch)
           | Some (Abort e) \<Rightarrow> Some (src\<lparr>chan_buf := xs\<rparr>, CReturned (Some e), trg, ch))
      | [] \<Rightarrow> if \<not> zero \<and> chan_closed src then Some (src, CReturned None, trg, ch) else None)"
| "cond_step zero k (CHold y) src trg ready ch =
     (if \<not> zero \<and> can_send trg ready
      then Some (src, CRecv, trg\<lparr>chan_buf := chan_buf trg @ [y]\<rparr>, ch) else None)"
| "cond_step zero k (CReturned err) src trg ready ch =
     (if zero then None
      else Some (src, CClose, trg, (case err of None \<Rightarrow> ch | Some e \<Rightarrow> addErr ch e)))"
| "cond_step zero k CClose src trg ready ch =
     (if zero then None else Some (src, CDone, trg\<lparr>chan_closed := True\<rparr>, ch))"
| "cond_step zero k CDone src trg ready ch = None"

text \<open>
  A step of one of the goroutines that \<open>Run\<close> started; \<open>ready\<close> says that the reader of
  the outermost channel is waiting at its receive.
\<close>

fun pstep :: "action \<Rightarrow> pipe \<Rightarrow> bool \<Rightarrow> chain \<Rightarrow> (pipe \<times> chain) option" where
  "pstep a (Source ps c) ready ch =
     (if a = Go 0 then
        (case prod_step ps c ready ch of
           None \<Rightarrow> None
         | Some (ps', c', ch') \<Rightarrow> Some (Source ps' c', ch'))
      else None)"
| "pstep a (Stage up k st c) ready ch =
     (if a = Go (Suc (plen up)) \<or> a = Fail (Suc (plen up)) then
        (case cond_step (a = Fail (Suc (plen up))) k st (out_chan up) c ready ch of
           None \<Rightarrow> None
         | Some (src', st', c', ch') \<Rightarrow> Some (Stage (set_out up src') k st' c', ch'))
      else
        (case pstep a up (st = CRecv) ch of
           None \<Rightarrow> None
         | Some (up', ch') \<Rightarrow> Some (Stage up' k st c, ch')))"

text \<open>The state of a run: the goroutines started, the calling goroutine, and the chain.\<close>

record run_state =
  rs_pipe :: pipe
  rs_main :: sstate
  rs_ch :: chain

text \<open>
  The goroutine that called \<open>Run\<close>, from
  \<open>cerr := ch.c.Consume(c2); if cerr != nil { ch.addErr(cerr) };
  if (ch.e) { return errors.New("Errors occurred") }; return nil\<close>:
  the consumer's loop (receive until the source is closed, then return the consumer's
  error), \<open>addErr\<close>, the test of \<open>ch.e\<close> with the return.  (\<open>Run\<close> reads \<open>ch.e\<close> without the
  mutex; the read is one step here.)
\<close>

definition main_step :: "run_state \<Rightarrow> run_state option" where
  "main_step s =
     (case rs_main s of
        SRecv r \<Rightarrow>
          (case chan_buf (out_chan (rs_pipe s)) of
             x # xs \<Rightarrow>
               Some (s\<lparr>rs_pipe := set_out (rs_pipe s) ((out_chan (rs_pipe s))\<lparr>chan_buf := xs\<rparr>),
                       rs_main := SRecv (r @ [x])\<rparr>)
           | [] \<Rightarrow>
               if chan_closed (out_chan (rs_pipe s)) then
                 (case ch_c (rs_ch s) of Collects cerr \<Rightarrow> Some (s\<lparr>rs_main := SReturned r cerr\<rparr>))
               else None)
      | SReturned r cerr \<Rightarrow>
          Some (s\<lparr>rs_main := SCheck r,
                  rs_ch := (case cerr of None \<Rightarrow> rs_ch s | Some e \<Rightarrow> addErr (rs_ch s) e)\<rparr>)
      | SCheck r \<Rightarrow>
          Some (s\<lparr>rs_main := SDone r (if ch_e (rs_ch s) then Some ''Errors occurred'' else None)\<rparr>)
      | SDone r res \<Rightarrow> None)"

text \<open>Whether the calling goroutine is waiting at the receive of the consumer's loop.\<close>

fun receiving :: "sstate \<Rightarrow> bool" where
  "receiving (SRecv r) = True"
| "receiving _ = False"

definition step :: "action \<Rightarrow> run_state \<Rightarrow> run_state option" where
  "step a s =
     (if a = Main then main_step s
      else
        (case pstep a (rs_pipe s) (receiving (rs_main s)) (rs_ch s) of
           None \<Rightarrow> None
         | Some (p', ch') \<Rightarrow> Some (s\<lparr>rs_pipe := p', rs_ch := ch'\<rparr>)))"

text \<open>
  The start of \<open>Run\<close>: \<open>reset\<close>, the channel \<open>c1\<close>, \<open>runPipe\<close>, the producer's goroutine,
  and the call of \<open>Consume\<close>.
\<close>

definition Run_init :: "chain \<Rightarrow> run_state" where
  "Run_init ch =
     (case ch_p ch of
        Emits xs err \<Rightarrow>
          \<lparr>rs_pipe = runPipe ch (Source (PSend xs err) (make_chan (ch_sz ch))),
           rs_main = SRecv [],
           rs_ch = reset ch\<rparr>)"

text \<open>
  A run under a schedule: the picks are taken one after the other; a pick that cannot
  move leaves the state as it is.
\<close>

fun exec :: "action list \<Rightarrow> run_state \<Rightarrow> run_state" where
  "exec [] s = s"
| "exec (a # as) s = exec as (case step a s of None \<Rightarrow> s | Some s' \<Rightarrow> s')"

subsection \<open>What can be said of a state of a run\<close>

text \<open>All goroutines that \<open>Run\<close> started have finished.\<close>

fun finished :: "pipe \<Rightarrow> bool" where
  "finished (Source ps c) \<longleftrightarrow> ps = PDone"
| "finished (Stage up k st c) \<longleftrightarrow> st = CDone \<and> finished up"

text \<open>The conduits of a run, the one next to the consumer first.\<close>

fun conduits :: "pipe \<Rightarrow> conduit list" where
  "conduits (Source ps c) = []"
| "conduits (Stage up k st c) = k # conduits up"

text \<open>
  The items on their way, the one to arrive first at the head: those in the outermost
  channel, then the item that the conduit before it is about to send, and so on up to
  the items that the producer has yet to send.
\<close>

fun held_item :: "cstate \<Rightarrow> item list" where
  "held_item (CHold y) = [y]"
| "held_item _ = []"

fun to_send :: "pstate \<Rightarrow> item list" where
  "to_send (PSend xs err) = xs"
| "to_send _ = []"

fun flow :: "pipe \<Rightarrow> item list" where
  "flow (Source ps c) = chan_buf c @ to_send ps"
| "flow (Stage up k st c) = chan_buf c @ held_item st @ flow up"

text \<open>
  A bound on the steps that a run can still take: every item counts with the steps it
  needs at most to reach the consumer (\<open>d\<close> from a channel that is \<open>d\<close> steps away from
  it), every goroutine with the steps it takes after its last item.
\<close>

fun prank :: "pstate \<Rightarrow> nat" where
  "prank (PSend xs err) = 3"
| "prank (PReturned err) = 2"
| "prank PClose = 1"
| "prank PDone = 0"

fun crank :: "cstate \<Rightarrow> nat" where
  "crank CRecv = 3"
| "crank (CHold y) = 3"
| "crank (CReturned err) = 2"
| "crank CClose = 1"
| "crank CDone = 0"

fun srank :: "sstate \<Rightarrow> nat" where
  "srank (SRecv r) = 3"
| "srank (SReturned r cerr) = 2"
| "srank (SCheck r) = 1"
| "srank (SDone r res) = 0"

fun pweight :: "nat \<Rightarrow> pipe \<Rightarrow> nat" where
  "pweight d (Source ps c) = d * length (chan_buf c) + Suc d * length (to_send ps) + prank ps"
| "pweight d (Stage up k st c) =
     d * length (chan_buf c) + Suc d * length (held_item st) + crank st + pweight (Suc (Suc d)) up"

definition weight :: "run_state \<Rightarrow> nat" where
  "weight s = pweight 1 (rs_pipe s) + srank (rs_main s)"

text \<open>\<open>Run\<close> has returned.\<close>

fun returned :: "sstate \<Rightarrow> bool" where
  "returned (SDone r res) = True"
| "returned _ = False"

text \<open>The errors that a stage's return value adds to \<open>Errs\<close>.\<close>

fun errs_of :: "error option \<Rightarrow> error list" where
  "errs_of None = []"
| "errs_of (Some e) = [e]"

text \<open>The items that the consumer has received.\<close>

fun received :: "sstate \<Rightarrow> item list" where
  "received (SRecv r) = r"
| "received (SReturned r cerr) = r"
| "received (SCheck r) = r"
| "received (SDone r res) = r"

section \<open>Invariants of a run\<close>

text \<open>The outermost channel is closed and empty: its reader's loop ends, or has ended.\<close>

definition drained :: "pipe \<Rightarrow> bool" where
  "drained p \<longleftrightarrow> chan_closed (out_chan p) \<and> chan_buf (out_chan p) = []"

text \<open>
  A channel is closed exactly when the goroutine that writes it has finished; a conduit
  is back from \<open>Conduct\<close> with \<open>nil\<close> only when its source is closed and empty, and with
  an error only if it is one that can fail; \<open>e\<close> is the flag \<open>ch.e\<close>.
\<close>

fun pinv :: "bool \<Rightarrow> pipe \<Rightarrow> bool" where
  "pinv e (Source ps c) \<longleftrightarrow> (chan_closed c \<longleftrightarrow> ps = PDone)"
| "pinv e (Stage up k st c) \<longleftrightarrow>
     pinv e up \<and> (chan_closed c \<longleftrightarrow> st = CDone) \<and>
     (case st of
        CRecv \<Rightarrow> True
      | CHold y \<Rightarrow> True
      | CReturned None \<Rightarrow> drained up
      | CReturned (Some err) \<Rightarrow> \<not> cannot_fail k
      | CClose \<Rightarrow> drained up \<or> (e \<and> \<not> cannot_fail k)
      | CDone \<Rightarrow> drained up \<or> (e \<and> \<not> cannot_fail k))"

definition run_inv :: "run_state \<Rightarrow> bool" where
  "run_inv s \<longleftrightarrow>
     pinv (ch_e (rs_ch s)) (rs_pipe s) \<and>
     (ch_Errs (rs_ch s) \<noteq> [] \<longleftrightarrow> ch_e (rs_ch s)) \<and>
     (receiving (rs_main s) \<or> drained (rs_pipe s)) \<and>
     (case rs_main s of
        SDone r res \<Rightarrow> res = (if ch_e (rs_ch s) then Some ''Errors occurred'' else None)
      | _ \<Rightarrow> True)"

text \<open>
  With conduits that are all \<open>Identity\<close>: the items received and the items on their way
  are the items that the producer sends.
\<close>

definition flow_inv :: "item list \<Rightarrow> run_state \<Rightarrow> bool" where
  "flow_inv xs s \<longleftrightarrow>
     list_all (\<lambda>k. k = Identity) (conduits (rs_pipe s)) \<and>
     received (rs_main s) @ flow (rs_pipe s) = xs"

text \<open>
  With conduits that cannot fail: \<open>Errs\<close> holds the producer's error once its goroutine
  is past \<open>addErr\<close>, followed by the consumer's error once \<open>Run\<close> is past \<open>addErr\<close>.
\<close>

fun perrs :: "error option \<Rightarrow> pipe \<Rightarrow> error list" where
  "perrs perr (Source ps c) = (if ps = PClose \<or> ps = PDone then errs_of perr else [])"
| "perrs perr (Stage up k st c) = perrs perr up"

fun produces :: "error option \<Rightarrow> pipe \<Rightarrow> bool" where
  "produces perr (Source ps c) \<longleftrightarrow>
     (case ps of PSend xs err \<Rightarrow> err = perr | PReturned err \<Rightarrow> err = perr | _ \<Rightarrow> True)"
| "produces perr (Stage up k st c) \<longleftrightarrow> produces perr up"



section \<open>Facts about the \<open>unicode/utf8\<close> functions\<close>

lemma first_in:
  "first b = 0xF0 \<or> first b = 0xF1 \<or> first b = 0x02 \<or> first b = 0x13 \<or> first b = 0x03
     \<or> first b = 0x23 \<or> first b = 0x34 \<or> first b = 0x04 \<or> first b = 0x44"
  by (simp add: first_def)

lemma and_192_int: "(a::int) AND 192 = 64 * ((a div 64) mod 4)"
proof -
  have "(192::int) = mask 8 AND NOT (mask 6)"
    by (simp add: mask_eq_exp_minus_1)
  then have "a AND 192 = a AND mask (2 + 6) AND NOT (mask 6)"
    by (simp add: and.assoc)
  also have "\<dots> = push_bit 6 (take_bit 2 (drop_bit 6 a))"
    by (simp only: slice_eq_mask)
  also have "\<dots> = 64 * ((a div 64) mod 4)"
    by (simp add: push_bit_eq_mult take_bit_eq_mod drop_bit_eq_div)
  finally show ?thesis .
qed

lemma RuneStart_iff: "RuneStart b \<longleftrightarrow> \<not> (0x80 \<le> b \<and> b \<le> 0xBF)"
proof -
  define k where "k = uint b"
  define q where "q = k div 64"
  have lt: "k < 256" "0 \<le> k"
    using unsigned_less [of b, where ?'a = int] by (simp_all add: k_def)
  have q: "64 * q \<le> k" "k < 64 * q + 64"
    unfolding q_def by linarith+
  then have q03: "0 \<le> q" "q < 4"
    using lt by linarith+
  have "(b AND 0xC0 \<noteq> 0x80) = (uint (b AND 0xC0) \<noteq> uint (0x80 :: byte))"
    by (simp only: word_uint_eq_iff)
  also have "\<dots> = (k AND 192 \<noteq> 128)"
    by (simp add: unsigned_and_eq k_def)
  also have "\<dots> = (64 * (q mod 4) \<noteq> 128)"
    by (simp only: and_192_int q_def)
  also have "\<dots> = (q \<noteq> 2)"
    using q03 by simp
  also have "\<dots> = (\<not> (128 \<le> k \<and> k \<le> 191))"
    using q q03 by linarith
  also have "\<dots> = (\<not> (0x80 \<le> b \<and> b \<le> 0xBF))"
    by (simp add: word_le_def k_def)
  finally show ?thesis
    by (simp add: RuneStart_def)
qed

lemma ucast_less_RuneSelf: "((ucast (b::byte) :: rune) < RuneSelf) = (b < 0x80)"
  using unsigned_less [of b, where ?'a = nat]
  by (simp add: RuneSelf_def word_less_nat_alt unsigned_ucast_eq take_bit_nat_eq_self)

lemma ucast_ascii_not_RuneError: "b < 0x80 \<Longrightarrow> (ucast (b::byte) :: rune) \<noteq> RuneError"
  using unsigned_less [of b, where ?'a = nat]
  by (simp add: RuneError_def word_less_nat_alt word_unat_eq_iff unsigned_ucast_eq
      take_bit_nat_eq_self)

lemma good_struct:
  assumes "good c"
  shows "1 \<le> length c \<and> length c \<le> 4 \<and> first (c ! 0) \<noteq> 0xF1
    \<and> int (length c) = (if first (c ! 0) = 0xF0 then 1 else uint (first (c ! 0) AND 7))
    \<and> (2 \<le> length c \<longrightarrow> cont (c ! 1) \<and> fst (acceptRanges (drop_bit 4 (first (c ! 0)))) \<le> c ! 1
          \<and> c ! 1 \<le> snd (acceptRanges (drop_bit 4 (first (c ! 0)))))
    \<and> (3 \<le> length c \<longrightarrow> cont (c ! 2))
    \<and> (4 \<le> length c \<longrightarrow> cont (c ! 3))"
  using assms first_in [of "c ! 0"]
  apply (elim disjE)
  apply (simp_all add: good_def DecodeRune_def Let_def acceptRanges_def cont_def
      word_le_nat_alt word_less_nat_alt split: if_splits)
  done

lemma cont_first: "cont b \<Longrightarrow> first b = 0xF1"
  by (simp add: cont_def first_def word_le_nat_alt word_less_nat_alt)

lemma good_lead: "good c \<Longrightarrow> RuneStart (c ! 0)"
  using good_struct [of c] cont_first [of "c ! 0"] by (auto simp: RuneStart_iff cont_def)

lemma good_cont: "good c \<Longrightarrow> 0 < k \<Longrightarrow> k < length c \<Longrightarrow> cont (c ! k)"
proof -
  assume g: "good c" and k: "0 < k" "k < length c"
  from good_struct [OF g] k have "k = 1 \<or> k = 2 \<or> k = 3" by linarith
  then show ?thesis using good_struct [OF g] k by auto
qed

lemma good_length_lead: "good c \<Longrightarrow> good d \<Longrightarrow> c ! 0 = d ! 0 \<Longrightarrow> length c = length d"
  using good_struct [of c] good_struct [of d] by (auto split: if_splits)

lemma FullRune_good: "good c \<Longrightarrow> FullRune c"
  using good_struct [of c] by (auto simp: FullRune_def Let_def split: if_splits)

lemma FullRune_len4: "4 \<le> length p \<Longrightarrow> FullRune p"
  using first_in [of "p ! 0"] by (auto simp: FullRune_def Let_def)

lemma FullRune_prefix:
  assumes "good c" "0 < k" "k < length c"
  shows "\<not> FullRune (take k c)"
  using good_struct [OF assms(1)] assms(2,3) first_in [of "c ! 0"]
  apply (elim disjE)
  apply (auto simp add: FullRune_def Let_def cont_def acceptRanges_def word_le_nat_alt word_less_nat_alt)
  done

lemma DecodeRune_take:
  assumes "DecodeRune p = (r, n)" "r \<noteq> RuneError"
  shows "1 \<le> n \<and> n \<le> int (length p) \<and> good (take (nat n) p)"
proof -
  have "p \<noteq> []"
    using assms by (auto simp: DecodeRune_def)
  then have "1 \<le> length p"
    by (cases p) auto
  then show ?thesis
    using assms first_in [of "p ! 0"]
    apply (elim disjE)
            apply (simp_all add: good_def DecodeRune_def Let_def min_def split: if_splits)
    done
qed

lemma first_ascii: "(first b = 0xF0) = (b < 0x80)"
  by (simp add: first_def)

lemma lastRuneStart_found:
  "lim \<le> j \<Longrightarrow> j \<le> start \<Longrightarrow> RuneStart (p ! nat j) \<Longrightarrow>
   (\<forall>k. j < k \<and> k \<le> start \<longrightarrow> \<not> RuneStart (p ! nat k)) \<Longrightarrow> lastRuneStart p start lim = j"
proof (induction p start lim rule: lastRuneStart.induct)
  case (1 p start lim)
  show ?case
  proof (cases "start = j")
    case True
    then show ?thesis using "1.prems" by (subst lastRuneStart.simps) simp
  next
    case False
    then have lt: "j < start" using "1.prems" by simp
    then have ns: "\<not> RuneStart (p ! nat start)" using "1.prems" by simp
    have "lastRuneStart p (start - 1) lim = j"
      using "1.IH" "1.prems" lt ns by simp
    then show ?thesis using lt ns "1.prems" by (subst lastRuneStart.simps) simp
  qed
qed

lemma lastRuneStart_le: "lastRuneStart p start lim \<le> start"
proof (induction p start lim rule: lastRuneStart.induct)
  case (1 p start lim)
  then show ?case by (cases "start \<ge> lim \<and> \<not> RuneStart (p ! nat start)") (auto simp add: lastRuneStart.simps [of p start lim])
qed

lemma DecodeLastRune_suffix:
  assumes "fst (DecodeLastRune p) \<noteq> RuneError"
  shows "\<exists>n. 1 \<le> n \<and> n \<le> length p \<and> good (drop (length p - n) p)"
proof (cases "p = []")
  case True
  then show ?thesis using assms by (simp add: DecodeLastRune_def)
next
  case ne: False
  then have len: "1 \<le> length p" by (cases p) auto
  show ?thesis
  proof (cases "last p < 0x80")
    case True
    have "drop (length p - 1) p = [last p]"
      using ne by (metis append_butlast_last_id append_eq_conv_conj length_butlast)
    moreover have "first (last p) = 0xF0"
      using True by (simp add: first_ascii)
    then have "good [last p]"
      using True by (simp add: good_def DecodeRune_def ucast_ascii_not_RuneError)
    ultimately show ?thesis using len by (intro exI [of _ 1]) simp
  next
    case False
    define e where "e = int (length p)"
    define lim where "lim = (if e - UTFMax < 0 then 0 else e - UTFMax)"
    define s0 where "s0 = lastRuneStart p (e - 1 - 1) lim"
    define st where "st = (if s0 < 0 then 0 else s0)"
    have "nat (e - 1) = length p - 1"
      using len unfolding e_def by linarith
    then have lastp: "p ! nat (e - 1) = last p"
      using ne by (simp add: last_conv_nth)
    have st: "0 \<le> st" "st \<le> e - 1"
      using lastRuneStart_le [of p "e - 1 - 1" lim] len by (auto simp: st_def s0_def e_def)
    obtain r n where rn: "DecodeRune (drop (nat st) p) = (r, n)"
      by (cases "DecodeRune (drop (nat st) p)") auto
    have "DecodeLastRune p =
        (if e = 0 then (RuneError, 0)
         else if (ucast (p ! nat (e - 1)) :: rune) < RuneSelf then (ucast (p ! nat (e - 1)), 1)
         else (case DecodeRune (drop (nat st) p) of
                 (r, n) \<Rightarrow> if st + n \<noteq> e then (RuneError, 1) else (r, n)))"
      unfolding DecodeLastRune_def Let_def st_def s0_def lim_def e_def by (rule refl)
    moreover have "e \<noteq> 0"
      using ne by (simp add: e_def)
    ultimately have eq: "DecodeLastRune p = (if st + n \<noteq> e then (RuneError, 1) else (r, n))"
      using False rn lastp by (simp add: ucast_less_RuneSelf)
    then have stn: "st + n = e" and r: "r \<noteq> RuneError"
      using assms by (auto split: if_splits)
    from DecodeRune_take [OF rn r] have g: "good (take (nat n) (drop (nat st) p))" and n1: "1 \<le> n"
      by auto
    have "take (nat n) (drop (nat st) p) = drop (nat st) p"
      using stn st by (simp add: e_def)
    moreover have "nat st = length p - nat n"
      using stn st n1 by (simp add: e_def)
    ultimately have "good (drop (length p - nat n) p)" using g by simp
    moreover have "1 \<le> nat n" "nat n \<le> length p" using n1 stn st by (auto simp: e_def)
    ultimately show ?thesis by blast
  qed
qed

lemma DecodeLastRune_partial:
  assumes "partial p" "p \<noteq> []"
  shows "fst (DecodeLastRune (xs @ p)) = RuneError"
proof (rule ccontr)
  assume "fst (DecodeLastRune (xs @ p)) \<noteq> RuneError"
  from DecodeLastRune_suffix [OF this] obtain n where
    n: "1 \<le> n" "n \<le> length (xs @ p)" and g: "good (drop (length (xs @ p) - n) (xs @ p))"
    by blast
  from assms(1) obtain q where q: "q \<noteq> []" and gq: "good (p @ q)"
    by (auto simp: partial_def)
  have lead: "RuneStart (p ! 0)"
    using good_lead [OF gq] assms(2) by (simp add: nth_append)
  define t where "t = drop (length (xs @ p) - n) (xs @ p)"
  have lt: "length t = n" using n by (simp add: t_def)
  have gt: "good t" using g by (simp add: t_def)
  consider "n < length p" | "n = length p" | "length p < n" by linarith
  then show False
  proof cases
    case 1
    then have t: "t = drop (length p - n) p" by (simp add: t_def)
    have "t ! 0 = p ! (length p - n)" using 1 n by (simp add: t)
    moreover have "cont ((p @ q) ! (length p - n))"
      using good_cont [OF gq, of "length p - n"] 1 n by simp
    moreover have "length p - n < length p" using 1 n by linarith
    ultimately have "cont (t ! 0)" by (simp add: nth_append)
    then show False using good_lead [OF gt] by (simp add: RuneStart_iff cont_def)
  next
    case 2
    then have "t = p" by (simp add: t_def)
    then have "length p = length (p @ q)"
      using good_length_lead [OF gt gq] assms(2) by (simp add: nth_append)
    then show False using q by simp
  next
    case 3
    then have t: "t = drop (length xs + length p - n) xs @ p"
      using n by (simp add: t_def)
    define k where "k = n - length p"
    have k: "0 < k" "k < length t" "length (drop (length xs + length p - n) xs) = k"
      using 3 n lt assms(2) by (auto simp: k_def)
    have "t ! k = p ! 0" using k assms(2) by (simp add: t nth_append)
    moreover have "cont (t ! k)" using good_cont [OF gt k(1,2)] .
    ultimately show False using lead by (simp add: RuneStart_iff cont_def)
  qed
qed

lemma DecodeLastRune_good:
  assumes "good c"
  shows "fst (DecodeLastRune (xs @ c)) \<noteq> RuneError"
proof -
  let ?p = "xs @ c"
  from good_struct [OF assms] have len: "1 \<le> length c" "length c \<le> 4" by auto
  then have ne: "c \<noteq> []" "?p \<noteq> []" by auto
  have "last ?p = last c"
    using ne by simp
  then have lastp: "last ?p = c ! (length c - 1)"
    using last_conv_nth [OF ne(1)] by simp
  show ?thesis
  proof (cases "length c = 1")
    case True
    then have "first (c ! 0) = 0xF0"
      using good_struct [OF assms] first_in [of "c ! 0"] by (auto split: if_splits)
    then have a: "last ?p < 0x80" using True lastp by (simp add: first_ascii)
    define e where "e = int (length ?p)"
    have idx: "nat (e - 1) = length ?p - 1"
      using len unfolding e_def by simp
    have "DecodeLastRune ?p =
        (if e = 0 then (RuneError, 0)
         else if (ucast (?p ! nat (e - 1)) :: rune) < RuneSelf then (ucast (?p ! nat (e - 1)), 1)
         else DecodeLastRune ?p)"
      unfolding DecodeLastRune_def Let_def e_def by simp
    moreover have "e \<noteq> 0" using len by (simp add: e_def)
    moreover have "?p ! nat (e - 1) = last ?p"
      using ne unfolding idx by (simp only: last_conv_nth [OF ne(2)])
    ultimately have "DecodeLastRune ?p = (ucast (last ?p), 1)"
      using a by (simp add: ucast_less_RuneSelf)
    then show ?thesis using a by (simp add: ucast_ascii_not_RuneError)
  next
    case False
    then have l2: "2 \<le> length c" using len by simp
    have "cont (c ! (length c - 1))"
      using good_cont [OF assms, of "length c - 1"] l2 by simp
    then have na: "\<not> last ?p < 0x80"
      using lastp by (simp add: cont_def not_less)
    define e where "e = int (length ?p)"
    define lim where "lim = (if e - UTFMax < 0 then 0 else e - UTFMax)"
    define s0 where "s0 = lastRuneStart ?p (e - 1 - 1) lim"
    define st where "st = (if s0 < 0 then 0 else s0)"
    define j where "j = int (length xs)"
    have ej: "e = j + int (length c)" by (simp add: e_def j_def)
    have "nat (e - 1) = length ?p - 1"
      using len unfolding e_def by simp
    then have lastp': "?p ! nat (e - 1) = last ?p"
      by (simp only: last_conv_nth [OF ne(2)])
    have "DecodeLastRune ?p =
        (if e = 0 then (RuneError, 0)
         else if (ucast (?p ! nat (e - 1)) :: rune) < RuneSelf then (ucast (?p ! nat (e - 1)), 1)
         else (case DecodeRune (drop (nat st) ?p) of
                 (r, n) \<Rightarrow> if st + n \<noteq> e then (RuneError, 1) else (r, n)))"
      unfolding DecodeLastRune_def Let_def st_def s0_def lim_def e_def by (rule refl)
    moreover have "e \<noteq> 0" using len by (simp add: e_def)
    ultimately have eq: "DecodeLastRune ?p =
        (case DecodeRune (drop (nat st) ?p) of
           (r, n) \<Rightarrow> if st + n \<noteq> e then (RuneError, 1) else (r, n))"
      using na lastp' by (simp add: ucast_less_RuneSelf)
    have "s0 = j"
      unfolding s0_def
    proof (rule lastRuneStart_found)
      show "lim \<le> j" using len by (simp add: lim_def ej UTFMax_def j_def)
      show "j \<le> e - 1 - 1" using l2 by (simp add: ej)
      show "RuneStart (?p ! nat j)"
        using good_lead [OF assms] by (simp add: j_def nth_append)
      show "\<forall>k. j < k \<and> k \<le> e - 1 - 1 \<longrightarrow> \<not> RuneStart (?p ! nat k)"
      proof (intro allI impI)
        fix k assume k: "j < k \<and> k \<le> e - 1 - 1"
        then have "?p ! nat k = c ! (nat k - length xs)"
          by (simp add: nth_append j_def) linarith
        moreover have "cont (c ! (nat k - length xs))"
          using good_cont [OF assms, of "nat k - length xs"] k by (simp add: ej j_def) linarith
        ultimately show "\<not> RuneStart (?p ! nat k)"
          by (simp add: RuneStart_iff cont_def)
      qed
    qed
    then have st: "st = j" by (simp add: st_def j_def)
    have "drop (nat st) ?p = c" by (simp add: st j_def)
    moreover obtain r where "DecodeRune c = (r, int (length c))" "r \<noteq> RuneError"
      using assms by (cases "DecodeRune c") (auto simp: good_def)
    ultimately show ?thesis using eq by (simp add: st ej)
  qed
qed

section \<open>The loops of \<open>Utf8Conduit\<close>\<close>

lemma storeLoop_spec:
  assumes "length (u_lo u) = 4" "0 \<le> u_idx u" "0 \<le> i" "i \<le> s" "s \<le> int (length bs)"
    "u_idx u + (s - i) \<le> 4"
  shows "\<exists>u'. storeLoop u bs i s = Inr u' \<and> length (u_lo u') = 4 \<and> u_inv u' = u_inv u
      \<and> u_idx u' = u_idx u + (s - i)
      \<and> take (nat (u_idx u)) (u_lo u') = take (nat (u_idx u)) (u_lo u)
      \<and> (\<forall>k. 0 \<le> k \<and> k < s - i \<longrightarrow> u_lo u' ! nat (u_idx u + k) = bs ! nat (i + k))"
  using assms
proof (induction u bs i s rule: storeLoop.induct)
  case (1 u bs i s)
  show ?case
  proof (cases "i < s")
    case False
    then show ?thesis using "1.prems" by (subst storeLoop.simps) auto
  next
    case True
    define u1 where "u1 = u\<lparr>u_lo := (u_lo u)[nat (u_idx u) := bs ! nat i], u_idx := u_idx u + 1\<rparr>"
    have ix: "index bs i = Inr (bs ! nat i)"
      using True "1.prems" by (simp add: index_def)
    have as: "assign (u_lo u) (u_idx u) (bs ! nat i) = Inr ((u_lo u)[nat (u_idx u) := bs ! nat i])"
      using True "1.prems" by (simp add: assign_def)
    have step: "storeLoop u bs i s = storeLoop u1 bs (i + 1) s"
      using True ix as by (subst storeLoop.simps) (simp add: u1_def)
    have "\<exists>u'. storeLoop u1 bs (i + 1) s = Inr u' \<and> length (u_lo u') = 4 \<and> u_inv u' = u_inv u1
      \<and> u_idx u' = u_idx u1 + (s - (i + 1))
      \<and> take (nat (u_idx u1)) (u_lo u') = take (nat (u_idx u1)) (u_lo u1)
      \<and> (\<forall>k. 0 \<le> k \<and> k < s - (i + 1) \<longrightarrow> u_lo u' ! nat (u_idx u1 + k) = bs ! nat (i + 1 + k))"
      unfolding u1_def
      by (rule "1.IH" [OF True ix as]) (use True "1.prems" in simp_all)
    then obtain u' where u': "storeLoop u1 bs (i + 1) s = Inr u'" "length (u_lo u') = 4"
      "u_inv u' = u_inv u1" "u_idx u' = u_idx u1 + (s - (i + 1))"
      "take (nat (u_idx u1)) (u_lo u') = take (nat (u_idx u1)) (u_lo u1)"
      "\<forall>k. 0 \<le> k \<and> k < s - (i + 1) \<longrightarrow> u_lo u' ! nat (u_idx u1 + k) = bs ! nat (i + 1 + k)"
      by blast
    have n1: "nat (u_idx u1) = Suc (nat (u_idx u))"
      using "1.prems" by (simp add: u1_def nat_add_distrib)
    have lt4: "nat (u_idx u) < 4" using True "1.prems" by linarith
    have tk: "take (Suc (nat (u_idx u))) (u_lo u') = take (Suc (nat (u_idx u))) (u_lo u1)"
      using u'(5) n1 by simp
    have pre: "take (nat (u_idx u)) (u_lo u') = take (nat (u_idx u)) (u_lo u)"
    proof -
      have "take (nat (u_idx u)) (take (Suc (nat (u_idx u))) (u_lo u'))
          = take (nat (u_idx u)) (take (Suc (nat (u_idx u))) (u_lo u1))"
        using tk by simp
      then show ?thesis by (simp add: u1_def min_def)
    qed
    have at: "u_lo u' ! nat (u_idx u) = bs ! nat i"
    proof -
      have "take (Suc (nat (u_idx u))) (u_lo u') ! nat (u_idx u)
          = take (Suc (nat (u_idx u))) (u_lo u1) ! nat (u_idx u)"
        using tk by simp
      then show ?thesis using lt4 "1.prems"(1) by (simp add: u1_def)
    qed
    have nth: "\<forall>k. 0 \<le> k \<and> k < s - i \<longrightarrow> u_lo u' ! nat (u_idx u + k) = bs ! nat (i + k)"
    proof (intro allI impI)
      fix k assume k: "0 \<le> k \<and> k < s - i"
      show "u_lo u' ! nat (u_idx u + k) = bs ! nat (i + k)"
      proof (cases "k = 0")
        case True
        then show ?thesis using at by simp
      next
        case False
        then have "0 \<le> k - 1 \<and> k - 1 < s - (i + 1)" using k by simp
        then have "u_lo u' ! nat (u_idx u1 + (k - 1)) = bs ! nat (i + 1 + (k - 1))"
          using u'(6) by blast
        then show ?thesis by (simp add: u1_def)
      qed
    qed
    show ?thesis
      using step u'(1,2,3,4) pre nth by (simp add: u1_def)
  qed
qed

lemma scanBack_spec:
  assumes "l \<le> int (length bs)"
  shows "\<exists>l' b. scanBack bs lmin l = Inr (l', b) \<and> l' \<le> l
     \<and> (b \<longrightarrow> 0 \<le> l' \<and> lmin < l' \<and> fst (DecodeLastRune (take (nat l') bs)) \<noteq> RuneError)
     \<and> (\<not> b \<longrightarrow> (if 0 \<le> l \<and> lmin < l then l' = max lmin (- 1) else l' = l))
     \<and> (\<forall>j. l' < j \<and> j \<le> l \<longrightarrow> fst (DecodeLastRune (take (nat j) bs)) = RuneError)"
  using assms
proof (induction bs lmin l rule: scanBack.induct)
  case (1 bs lmin l)
  show ?case
  proof (cases "l \<ge> 0 \<and> l > lmin")
    case False
    then have "scanBack bs lmin l = Inr (l, False)"
      by (subst scanBack.simps) (simp only: if_False)
    moreover have "\<forall>j. l < j \<and> j \<le> l \<longrightarrow> fst (DecodeLastRune (take (nat j) bs)) = RuneError"
      by (intro allI impI) linarith
    ultimately show ?thesis using False by (intro exI [of _ l] exI [of _ False]) (simp only: simp_thms if_False not_False_eq_True order_refl)
  next
    case True
    have sl: "slice_to bs l = Inr (take (nat l) bs)"
      using True "1.prems" by (simp add: slice_to_def)
    show ?thesis
    proof (cases "fst (DecodeLastRune (take (nat l) bs)) \<noteq> RuneError")
      case ok: True
      have "scanBack bs lmin l = Inr (l, True)"
        using True sl ok by (subst scanBack.simps) simp
      moreover have "\<forall>j. l < j \<and> j \<le> l \<longrightarrow> fst (DecodeLastRune (take (nat j) bs)) = RuneError"
        by (intro allI impI) linarith
      ultimately show ?thesis using True ok by (intro exI [of _ l] exI [of _ True]) (simp only: simp_thms order_refl)
    next
      case bad: False
      have step: "scanBack bs lmin l = scanBack bs lmin (l - 1)"
        using True sl bad by (subst scanBack.simps) simp
      have "\<exists>l' b. scanBack bs lmin (l - 1) = Inr (l', b) \<and> l' \<le> l - 1
         \<and> (b \<longrightarrow> 0 \<le> l' \<and> lmin < l' \<and> fst (DecodeLastRune (take (nat l') bs)) \<noteq> RuneError)
         \<and> (\<not> b \<longrightarrow> (if 0 \<le> l - 1 \<and> lmin < l - 1 then l' = max lmin (- 1) else l' = l - 1))
         \<and> (\<forall>j. l' < j \<and> j \<le> l - 1 \<longrightarrow> fst (DecodeLastRune (take (nat j) bs)) = RuneError)"
        using "1.IH" [OF True sl] bad "1.prems" by simp
      then obtain l' b where r: "scanBack bs lmin (l - 1) = Inr (l', b)" "l' \<le> l - 1"
        "b \<longrightarrow> 0 \<le> l' \<and> lmin < l' \<and> fst (DecodeLastRune (take (nat l') bs)) \<noteq> RuneError"
        "\<not> b \<longrightarrow> (if 0 \<le> l - 1 \<and> lmin < l - 1 then l' = max lmin (- 1) else l' = l - 1)"
        "\<forall>j. l' < j \<and> j \<le> l - 1 \<longrightarrow> fst (DecodeLastRune (take (nat j) bs)) = RuneError"
        by blast
      have a: "\<not> b \<longrightarrow> l' = max lmin (- 1)"
        using r(4) True by (auto split: if_splits)
      have b: "\<forall>j. l' < j \<and> j \<le> l \<longrightarrow> fst (DecodeLastRune (take (nat j) bs)) = RuneError"
      proof (intro allI impI)
        fix j assume "l' < j \<and> j \<le> l"
        then have "j = l \<or> (l' < j \<and> j \<le> l - 1)" by linarith
        then show "fst (DecodeLastRune (take (nat j) bs)) = RuneError"
          using bad r(5) by blast
      qed
      have "l' \<le> l" using r(2) by simp
      then show ?thesis
        unfolding step using r(1,3) a b True by (intro exI [of _ l'] exI [of _ b]) (simp only: simp_thms if_True)
    qed
  qed
qed

lemma addLoop_spec:
  assumes "length (u_lo u) = 4" "0 \<le> u_idx u" "u_idx u \<le> 3" "tmp = take (nat (u_idx u)) (u_lo u)"
    "0 \<le> i" "i \<le> s" "s = int (length bs)"
  shows "\<exists>u' out n. addLoop u bs tmp i s = Inr (u', out, n) \<and> length (u_lo u') = 4
     \<and> u_inv u' = u_inv u
     \<and> ((\<exists>k. 1 \<le> k \<and> nat i + k \<le> length bs \<and> n = i + int k
            \<and> out = [FromTmp (tmp @ take k (drop (nat i) bs))] \<and> u_idx u' = 0
            \<and> FullRune (tmp @ take k (drop (nat i) bs))
            \<and> (\<forall>k'. 1 \<le> k' \<and> k' < k \<longrightarrow> \<not> FullRune (tmp @ take k' (drop (nat i) bs))))
         \<or> (n = s \<and> out = [] \<and> u_idx u' = u_idx u + (s - i) \<and> u_idx u' \<le> 3
            \<and> take (nat (u_idx u')) (u_lo u') = tmp @ drop (nat i) bs
            \<and> (\<forall>k'. 1 \<le> k' \<and> nat i + k' \<le> length bs
                  \<longrightarrow> \<not> FullRune (tmp @ take k' (drop (nat i) bs)))))"
  using assms
proof (induction u bs tmp i s rule: addLoop.induct)
  case (1 u bs tmp i s)
  have ltmp: "length tmp = nat (u_idx u)"
    using "1.prems" by simp
  show ?case
  proof (cases "i < s")
    case False
    then have ieq: "i = s" using "1.prems" by simp
    have "addLoop u bs tmp i s = Inr (u, [], s)"
      using False "1.prems" by (subst addLoop.simps) (simp add: UTFMax_def)
    moreover have "drop (nat i) bs = []"
      using ieq "1.prems" by simp
    moreover have "\<forall>k'. 1 \<le> k' \<and> nat i + k' \<le> length bs
                  \<longrightarrow> \<not> FullRune (tmp @ take k' (drop (nat i) bs))"
      using ieq "1.prems" by (intro allI impI) linarith
    ultimately show ?thesis
      using "1.prems" ieq by (intro exI [of _ u] exI [of _ "[]"] exI [of _ s]) simp
  next
    case True
    define b where "b = bs ! nat i"
    define lo' where "lo' = (u_lo u)[length tmp := b]"
    define rest where "rest = drop (Suc (nat i)) bs"
    have dr: "drop (nat i) bs = b # rest"
      using True "1.prems" by (simp add: b_def rest_def Cons_nth_drop_Suc)
    have ix: "index bs i = Inr b"
      using True "1.prems" by (simp add: index_def b_def)
    have "nat (u_idx u) < 4"
      using "1.prems" by linarith
    then have ap: "append_tmp (u_lo u) tmp b = (lo', tmp @ [b])"
      using "1.prems"(1) ltmp by (simp add: append_tmp_def lo'_def)
    have guard: "i < s \<and> u_idx u < UTFMax"
      using True "1.prems" by (simp add: UTFMax_def)
    have tk1: "take 1 (drop (nat i) bs) = [b]"
      by (simp add: dr)
    have le: "nat i + 1 \<le> length bs"
      using True "1.prems" by linarith
    have len': "length lo' = 4"
      using "1.prems" by (simp add: lo'_def)
    show ?thesis
    proof (cases "FullRune (tmp @ [b])")
      case full: True
      have "addLoop u bs tmp i s = Inr (u\<lparr>u_lo := lo', u_idx := 0\<rparr>, [FromTmp (tmp @ [b])], i + 1)"
        using guard ix ap full by (subst addLoop.simps) simp
      moreover have "\<exists>k. 1 \<le> k \<and> nat i + k \<le> length bs \<and> i + 1 = i + int k
            \<and> [FromTmp (tmp @ [b])] = [FromTmp (tmp @ take k (drop (nat i) bs))]
            \<and> FullRune (tmp @ take k (drop (nat i) bs))
            \<and> (\<forall>k'. 1 \<le> k' \<and> k' < k \<longrightarrow> \<not> FullRune (tmp @ take k' (drop (nat i) bs)))"
        using full tk1 le by (intro exI [of _ 1]) simp
      ultimately show ?thesis
        using len' by (intro exI [of _ "u\<lparr>u_lo := lo', u_idx := 0\<rparr>"] exI [of _ "[FromTmp (tmp @ [b])]"]
            exI [of _ "i + 1"]) simp
    next
      case nfull: False
      define u1 where "u1 = u\<lparr>u_lo := lo', u_idx := u_idx u + 1\<rparr>"
      have step: "addLoop u bs tmp i s = addLoop u1 bs (tmp @ [b]) (i + 1) s"
        using guard ix ap nfull by (subst addLoop.simps) (simp add: u1_def)
      have idx2: "u_idx u \<le> 2"
      proof (rule ccontr)
        assume "\<not> u_idx u \<le> 2"
        then have "length (tmp @ [b]) = 4" using ltmp "1.prems" by simp
        then show False using nfull FullRune_len4 [of "tmp @ [b]"] by simp
      qed
      have tmp1: "tmp @ [b] = take (nat (u_idx u1)) (u_lo u1)"
      proof -
        have "nat (u_idx u1) = Suc (length tmp)"
          using ltmp "1.prems" by (simp add: u1_def)
        moreover have "length tmp < length (u_lo u)"
          using ltmp "1.prems" by simp
        ultimately show ?thesis
          using "1.prems"(4) ltmp by (simp add: u1_def lo'_def take_Suc_conv_app_nth)
      qed
      have "\<exists>u' out n. addLoop u1 bs (tmp @ [b]) (i + 1) s = Inr (u', out, n) \<and> length (u_lo u') = 4
         \<and> u_inv u' = u_inv u1
         \<and> ((\<exists>k. 1 \<le> k \<and> nat (i + 1) + k \<le> length bs \<and> n = i + 1 + int k
            \<and> out = [FromTmp ((tmp @ [b]) @ take k (drop (nat (i + 1)) bs))] \<and> u_idx u' = 0
            \<and> FullRune ((tmp @ [b]) @ take k (drop (nat (i + 1)) bs))
            \<and> (\<forall>k'. 1 \<le> k' \<and> k' < k \<longrightarrow> \<not> FullRune ((tmp @ [b]) @ take k' (drop (nat (i + 1)) bs))))
         \<or> (n = s \<and> out = [] \<and> u_idx u' = u_idx u1 + (s - (i + 1)) \<and> u_idx u' \<le> 3
            \<and> take (nat (u_idx u')) (u_lo u') = (tmp @ [b]) @ drop (nat (i + 1)) bs
            \<and> (\<forall>k'. 1 \<le> k' \<and> nat (i + 1) + k' \<le> length bs
                  \<longrightarrow> \<not> FullRune ((tmp @ [b]) @ take k' (drop (nat (i + 1)) bs)))))"
        unfolding u1_def
        apply (rule "1.IH" [OF guard ix ap [symmetric] nfull])
        using "1.prems" True idx2 len' tmp1 by (simp_all add: u1_def)
      then obtain u' out n where r: "addLoop u1 bs (tmp @ [b]) (i + 1) s = Inr (u', out, n)"
        "length (u_lo u') = 4" "u_inv u' = u_inv u1"
        and alt: "(\<exists>k. 1 \<le> k \<and> nat (i + 1) + k \<le> length bs \<and> n = i + 1 + int k
            \<and> out = [FromTmp ((tmp @ [b]) @ take k (drop (nat (i + 1)) bs))] \<and> u_idx u' = 0
            \<and> FullRune ((tmp @ [b]) @ take k (drop (nat (i + 1)) bs))
            \<and> (\<forall>k'. 1 \<le> k' \<and> k' < k \<longrightarrow> \<not> FullRune ((tmp @ [b]) @ take k' (drop (nat (i + 1)) bs))))
         \<or> (n = s \<and> out = [] \<and> u_idx u' = u_idx u1 + (s - (i + 1)) \<and> u_idx u' \<le> 3
            \<and> take (nat (u_idx u')) (u_lo u') = (tmp @ [b]) @ drop (nat (i + 1)) bs
            \<and> (\<forall>k'. 1 \<le> k' \<and> nat (i + 1) + k' \<le> length bs
                  \<longrightarrow> \<not> FullRune ((tmp @ [b]) @ take k' (drop (nat (i + 1)) bs))))"
        by blast
      have ni: "nat (i + 1) = Suc (nat i)" using "1.prems" by simp
      have dr1: "drop (nat (i + 1)) bs = rest" by (simp add: ni rest_def)
      have shift: "(tmp @ [b]) @ take k rest = tmp @ take (Suc k) (drop (nat i) bs)" for k
        by (simp add: dr)
      have nf: "\<not> FullRune (tmp @ take k' (drop (nat i) bs))"
        if "1 \<le> k'" "\<forall>k''. 1 \<le> k'' \<and> Suc k'' = k' \<longrightarrow> \<not> FullRune ((tmp @ [b]) @ take k'' rest)" for k'
      proof (cases "k' = 1")
        case True
        then show ?thesis using nfull tk1 by simp
      next
        case False
        define k'' where "k'' = k' - 1"
        have k'': "k' = Suc k''" "1 \<le> k''"
          using that(1) False by (simp_all add: k''_def)
        then show ?thesis using that(2) shift [of k''] by simp
      qed
      from alt show ?thesis
      proof
        assume "\<exists>k. 1 \<le> k \<and> nat (i + 1) + k \<le> length bs \<and> n = i + 1 + int k
            \<and> out = [FromTmp ((tmp @ [b]) @ take k (drop (nat (i + 1)) bs))] \<and> u_idx u' = 0
            \<and> FullRune ((tmp @ [b]) @ take k (drop (nat (i + 1)) bs))
            \<and> (\<forall>k'. 1 \<le> k' \<and> k' < k \<longrightarrow> \<not> FullRune ((tmp @ [b]) @ take k' (drop (nat (i + 1)) bs)))"
        then obtain k where k: "1 \<le> k" "nat (i + 1) + k \<le> length bs" "n = i + 1 + int k"
          "out = [FromTmp ((tmp @ [b]) @ take k rest)]" "u_idx u' = 0"
          "FullRune ((tmp @ [b]) @ take k rest)"
          "\<forall>k'. 1 \<le> k' \<and> k' < k \<longrightarrow> \<not> FullRune ((tmp @ [b]) @ take k' rest)"
          unfolding dr1 by blast
        have "\<forall>k'. 1 \<le> k' \<and> k' < Suc k \<longrightarrow> \<not> FullRune (tmp @ take k' (drop (nat i) bs))"
        proof (intro allI impI)
          fix k' assume a: "1 \<le> k' \<and> k' < Suc k"
          show "\<not> FullRune (tmp @ take k' (drop (nat i) bs))"
            by (rule nf) (use a k(7) in auto)
        qed
        then have d: "\<exists>k. 1 \<le> k \<and> nat i + k \<le> length bs \<and> n = i + int k
            \<and> out = [FromTmp (tmp @ take k (drop (nat i) bs))] \<and> u_idx u' = 0
            \<and> FullRune (tmp @ take k (drop (nat i) bs))
            \<and> (\<forall>k'. 1 \<le> k' \<and> k' < k \<longrightarrow> \<not> FullRune (tmp @ take k' (drop (nat i) bs)))"
          using k(1-6) ni unfolding shift by (intro exI [of _ "Suc k"]) simp
        have "addLoop u bs tmp i s = Inr (u', out, n)"
          using step r(1) by simp
        moreover have "u_inv u' = u_inv u"
          using r(3) by (simp add: u1_def)
        ultimately show ?thesis
          using r(2) d by blast
      next
        assume a: "n = s \<and> out = [] \<and> u_idx u' = u_idx u1 + (s - (i + 1)) \<and> u_idx u' \<le> 3
            \<and> take (nat (u_idx u')) (u_lo u') = (tmp @ [b]) @ drop (nat (i + 1)) bs
            \<and> (\<forall>k'. 1 \<le> k' \<and> nat (i + 1) + k' \<le> length bs
                  \<longrightarrow> \<not> FullRune ((tmp @ [b]) @ take k' (drop (nat (i + 1)) bs)))"
        have "\<forall>k'. 1 \<le> k' \<and> nat i + k' \<le> length bs \<longrightarrow> \<not> FullRune (tmp @ take k' (drop (nat i) bs))"
        proof (intro allI impI)
          fix k' assume b: "1 \<le> k' \<and> nat i + k' \<le> length bs"
          show "\<not> FullRune (tmp @ take k' (drop (nat i) bs))"
            by (rule nf) (use a b ni dr1 in auto)
        qed
        moreover from a have "take (nat (u_idx u')) (u_lo u') = (tmp @ [b]) @ drop (nat (i + 1)) bs"
          by blast
        then have "take (nat (u_idx u')) (u_lo u') = tmp @ drop (nat i) bs"
          unfolding dr1 dr by simp
        moreover have "u_idx u' = u_idx u + (s - i)"
          using a by (simp add: u1_def)
        ultimately have d: "n = s \<and> out = [] \<and> u_idx u' = u_idx u + (s - i) \<and> u_idx u' \<le> 3
            \<and> take (nat (u_idx u')) (u_lo u') = tmp @ drop (nat i) bs
            \<and> (\<forall>k'. 1 \<le> k' \<and> nat i + k' \<le> length bs
                  \<longrightarrow> \<not> FullRune (tmp @ take k' (drop (nat i) bs)))"
          using a by blast
        have "addLoop u bs tmp i s = Inr (u', out, n)"
          using step r(1) by simp
        moreover have "u_inv u' = u_inv u"
          using r(3) by (simp add: u1_def)
        ultimately show ?thesis
          using r(2) d by blast
      qed
    qed
  qed
qed

lemma storeLoop_from_empty:
  assumes "length (u_lo u) = 4" "u_idx u = 0" "0 \<le> i" "i \<le> s" "s = int (length bs)" "s - i \<le> 3"
  shows "\<exists>u'. storeLoop u bs i s = Inr u' \<and> length (u_lo u') = 4 \<and> u_inv u' = u_inv u
      \<and> u_idx u' = s - i \<and> take (nat (u_idx u')) (u_lo u') = drop (nat i) bs"
proof -
  from storeLoop_spec [of u i s bs] assms
  obtain u' where u': "storeLoop u bs i s = Inr u'" "length (u_lo u') = 4" "u_inv u' = u_inv u"
    "u_idx u' = s - i" "\<forall>k. 0 \<le> k \<and> k < s - i \<longrightarrow> u_lo u' ! nat (0 + k) = bs ! nat (i + k)"
    by auto
  have "take (nat (s - i)) (u_lo u') = drop (nat i) bs"
  proof (rule nth_equalityI)
    show "length (take (nat (s - i)) (u_lo u')) = length (drop (nat i) bs)"
      using assms u'(2) by simp
  next
    fix k assume "k < length (take (nat (s - i)) (u_lo u'))"
    then have k: "int k < s - i" by simp linarith
    then have "u_lo u' ! nat (0 + int k) = bs ! nat (i + int k)"
      using u'(5) by (metis of_nat_0_le_iff)
    moreover have "nat (i + int k) = nat i + k" using assms by (simp add: nat_add_distrib)
    ultimately show "take (nat (s - i)) (u_lo u') ! k = drop (nat i) bs ! k"
      using k assms by simp
  qed
  then show ?thesis using u' by auto
qed

lemma DecodeLastRune_Nil: "DecodeLastRune [] = (RuneError, 0)"
  by (simp add: DecodeLastRune_def)

lemma storeLeftOver_spec:
  assumes "length (u_lo u) = 4" "u_idx u = 0"
  shows "\<exists>u' l. storeLeftOver u bs = Inr (u', l) \<and> length (u_lo u') = 4 \<and> u_inv u' = u_inv u
     \<and> 0 \<le> l \<and> l \<le> int (length bs) \<and> u_idx u' = int (length bs) - l \<and> u_idx u' \<le> 3
     \<and> take (nat (u_idx u')) (u_lo u') = drop (nat l) bs
     \<and> (if bs = [] then l = 0
         else if fst (DecodeLastRune bs) \<noteq> RuneError then l = int (length bs)
         else l \<le> int (length bs) - 1
           \<and> (\<forall>j. l < j \<and> j \<le> int (length bs) - 1
                  \<longrightarrow> fst (DecodeLastRune (take (nat j) bs)) = RuneError)
           \<and> (fst (DecodeLastRune (take (nat l) bs)) \<noteq> RuneError
               \<or> l = max (int (length bs) - 3) 0))"
proof -
  define s where "s = int (length bs)"
  have "bs \<noteq> [] \<Longrightarrow> 1 \<le> s"
    by (cases bs) (simp_all add: s_def)
  then consider "bs = []" | "bs \<noteq> []" "fst (DecodeLastRune bs) \<noteq> RuneError"
    | "fst (DecodeLastRune bs) = RuneError" "s = 1"
    | "fst (DecodeLastRune bs) = RuneError" "2 \<le> s"
    by atomize_elim auto
  then show ?thesis
  proof cases
    case 1
    then have "storeLeftOver u bs = Inr (u, 0)" by (simp add: storeLeftOver_def)
    then show ?thesis using 1 assms by simp
  next
    case 2
    then have "storeLeftOver u bs = Inr (u, int (length bs))"
      by (simp add: storeLeftOver_def)
    then show ?thesis using 2 assms by simp
  next
    case 3
    then obtain b where bs: "bs = [b]" by (cases bs) (auto simp: s_def)
    have "index bs 0 = Inr b" by (simp add: index_def bs)
    moreover have "assign (u_lo u) (u_idx u) b = Inr ((u_lo u)[0 := b])"
      using assms by (simp add: assign_def)
    ultimately have "storeLeftOver u bs = Inr (u\<lparr>u_lo := (u_lo u)[0 := b], u_idx := u_idx u + 1\<rparr>, 0)"
      using 3 bs by (simp add: storeLeftOver_def Let_def)
    moreover have "take 1 ((u_lo u)[0 := b]) = [b]"
      using assms by (cases "u_lo u") simp_all
    ultimately show ?thesis using 3 assms bs by (simp add: DecodeLastRune_Nil)
  next
    case 4
    then have ne: "bs \<noteq> []" "s \<noteq> 0" "s - 1 \<noteq> 0" by (auto simp: s_def)
    from scanBack_spec [of "s - 1" bs "s - UTFMax"]
    obtain l' b where sc: "scanBack bs (s - UTFMax) (s - 1) = Inr (l', b)" "l' \<le> s - 1"
      "b \<longrightarrow> 0 \<le> l' \<and> s - UTFMax < l' \<and> fst (DecodeLastRune (take (nat l') bs)) \<noteq> RuneError"
      "\<not> b \<longrightarrow> (if 0 \<le> s - 1 \<and> s - UTFMax < s - 1 then l' = max (s - UTFMax) (- 1) else l' = s - 1)"
      "\<forall>j. l' < j \<and> j \<le> s - 1 \<longrightarrow> fst (DecodeLastRune (take (nat j) bs)) = RuneError"
      unfolding s_def by force
    show ?thesis
    proof (cases b)
      case True
      then have l': "0 \<le> l'" "s - 4 < l'" "fst (DecodeLastRune (take (nat l') bs)) \<noteq> RuneError"
        using sc(3) by (auto simp: UTFMax_def)
      from storeLoop_from_empty [of u l' s bs] assms l' sc(2)
      obtain u' where u': "storeLoop u bs l' s = Inr u'" "length (u_lo u') = 4" "u_inv u' = u_inv u"
        "u_idx u' = s - l'" "take (nat (u_idx u')) (u_lo u') = drop (nat l') bs"
        by (auto simp: s_def)
      have "storeLeftOver u bs = Inr (u', l')"
        using 4 ne sc(1) True u'(1) by (simp add: storeLeftOver_def Let_def s_def [symmetric])
      then show ?thesis
        using u' l' sc(2,5) 4 ne(1) by (auto simp: s_def)
    next
      case False
      then have l': "l' = max (s - 4) (- 1)"
        using sc(4) 4 by (auto simp: UTFMax_def split: if_splits)
      define l where "l = l' + 1"
      have l: "l = max (s - 3) 0" "0 \<le> l" "l \<le> s" "s - l \<le> 3" "l \<le> s - 1"
        using l' 4 by (auto simp: l_def)
      from storeLoop_from_empty [of u l s bs] assms l
      obtain u' where u': "storeLoop u bs l s = Inr u'" "length (u_lo u') = 4" "u_inv u' = u_inv u"
        "u_idx u' = s - l" "take (nat (u_idx u')) (u_lo u') = drop (nat l) bs"
        by (auto simp: s_def)
      have "storeLeftOver u bs = Inr (u', l)"
        using 4 ne sc(1) False u'(1) assms
        by (simp add: storeLeftOver_def Let_def s_def [symmetric] l_def UTFMax_def)
      moreover have "\<forall>j. l < j \<and> j \<le> s - 1 \<longrightarrow> fst (DecodeLastRune (take (nat j) bs)) = RuneError"
        using sc(5) by (simp add: l_def)
      ultimately show ?thesis
        using u' l 4 ne(1) by (auto simp: s_def)
    qed
  qed
qed

lemma good_ascii: "good [0x41]"
  by (simp add: good_def DecodeRune_def first_def RuneError_def)

lemma partial_Nil: "partial []"
  unfolding partial_def using good_ascii by (intro exI [of _ "[0x41]"]) simp

lemma partial_length: "partial p \<Longrightarrow> length p \<le> 3"
proof -
  assume "partial p"
  then obtain q where "q \<noteq> []" "good (p @ q)" by (auto simp: partial_def)
  then show ?thesis using good_struct [of "p @ q"] by (cases q) auto
qed

lemma partial_prefix: "partial (p @ r) \<Longrightarrow> partial p"
  unfolding partial_def by (metis append_assoc append_is_Nil_conv)

lemma good_nonempty: "good c \<Longrightarrow> c \<noteq> []"
  by (simp add: good_def)

lemma storeLeftOver_valid:
  assumes ok: "u_ok u" "u_idx u = 0" and bs: "bs = concat cs @ p" and cs: "\<forall>c\<in>set cs. good c"
    and p: "partial p"
  shows "\<exists>u'. storeLeftOver u bs = Inr (u', int (length (concat cs))) \<and> u_ok u'
    \<and> u_inv u' = u_inv u \<and> held u' = p"
proof -
  define xs where "xs = concat cs"
  define s where "s = int (length bs)"
  define m where "m = int (length xs)"
  have sm: "s = m + int (length p)" by (simp add: s_def m_def bs xs_def)
  have lp: "length p \<le> 3" using partial_length [OF p] .
  from storeLeftOver_spec [of u bs] ok
  obtain u' l where r: "storeLeftOver u bs = Inr (u', l)" "length (u_lo u') = 4" "u_inv u' = u_inv u"
    "0 \<le> l" "l \<le> s" "u_idx u' = s - l" "u_idx u' \<le> 3"
    "take (nat (u_idx u')) (u_lo u') = drop (nat l) bs"
    and ch: "if bs = [] then l = 0
         else if fst (DecodeLastRune bs) \<noteq> RuneError then l = s
         else l \<le> s - 1
           \<and> (\<forall>j. l < j \<and> j \<le> s - 1 \<longrightarrow> fst (DecodeLastRune (take (nat j) bs)) = RuneError)
           \<and> (fst (DecodeLastRune (take (nat l) bs)) \<noteq> RuneError \<or> l = max (s - 3) 0)"
    unfolding s_def u_ok_def by blast
  have xs_ok: "fst (DecodeLastRune xs) \<noteq> RuneError" if "xs \<noteq> []"
  proof -
    from that obtain cs' c where "cs = cs' @ [c]"
      unfolding xs_def by (cases cs rule: rev_cases) auto
    then have "xs = concat cs' @ c" "good c" using cs by (auto simp: xs_def)
    then show ?thesis using DecodeLastRune_good [of c "concat cs'"] by simp
  qed
  have mid: "fst (DecodeLastRune (take (nat j) bs)) = RuneError" if "m < j" "j \<le> s" for j
  proof -
    define k where "k = nat (j - m)"
    have k: "0 < k" "k \<le> length p" using that sm by (auto simp: k_def)
    have "nat j = length xs + k" using that by (simp add: k_def m_def)
    then have "take (nat j) bs = xs @ take k p" by (simp add: bs xs_def)
    moreover have "partial (take k p)" using p partial_prefix [of "take k p" "drop k p"] by simp
    moreover have "take k p \<noteq> []" using k by auto
    ultimately show ?thesis using DecodeLastRune_partial [of "take k p" xs] by simp
  qed
  have "l = m"
  proof (cases "p = []")
    case True
    then have bx: "bs = xs" "s = m" using sm by (simp_all add: bs xs_def)
    show ?thesis
    proof (cases "xs = []")
      case True
      then show ?thesis using ch bx by (simp add: m_def)
    next
      case False
      then show ?thesis using ch bx xs_ok by simp
    qed
  next
    case pne: False
    then have bne: "bs \<noteq> []" by (simp add: bs)
    have "take (nat s) bs = bs" by (simp add: s_def)
    then have "fst (DecodeLastRune bs) = RuneError"
      using mid [of s] sm pne by simp
    then have c1: "l \<le> s - 1"
      and c2: "\<forall>j. l < j \<and> j \<le> s - 1 \<longrightarrow> fst (DecodeLastRune (take (nat j) bs)) = RuneError"
      and c3: "fst (DecodeLastRune (take (nat l) bs)) \<noteq> RuneError \<or> l = max (s - 3) 0"
      using ch bne by simp_all
    have ms: "m \<le> s - 1" using sm pne by (cases p) auto
    have takem: "take (nat m) bs = xs" by (simp add: m_def bs xs_def)
    have ge: "m \<le> l"
    proof (cases "xs = []")
      case True
      then show ?thesis using r(4) by (simp add: m_def)
    next
      case False
      show ?thesis
      proof (rule ccontr)
        assume "\<not> m \<le> l"
        then have "fst (DecodeLastRune (take (nat m) bs)) = RuneError" using c2 ms by simp
        then show False using xs_ok [OF False] takem by simp
      qed
    qed
    have le: "l \<le> m"
    proof (rule ccontr)
      assume a: "\<not> l \<le> m"
      then have "fst (DecodeLastRune (take (nat l) bs)) = RuneError"
        using mid [of l] r(5) by simp
      then have "l = max (s - 3) 0" using c3 by simp
      then show False using a sm lp ge by (simp add: m_def) 
    qed
    from ge le show ?thesis by simp
  qed
  then have "held u' = p" "u_ok u'"
    using r sm lp by (simp_all add: held_def u_ok_def m_def bs xs_def)
  then show ?thesis using r(1,3) \<open>l = m\<close> by (simp add: m_def xs_def)
qed

lemma conductItem_unfold:
  assumes "addLeftOver u bs = Inr (u1, out1, n)" "0 \<le> n" "n \<le> int (length bs)"
    "storeLeftOver u1 (drop (nat n) bs) = Inr (u2, l)" "0 \<le> l" "l \<le> int (length bs) - n"
  shows "conductItem u (Bytes bs) =
    Inr (u2, out1 @ (if length (take (nat l) (drop (nat n) bs)) > 0
                     then [FromInput (take (nat l) (drop (nat n) bs))] else []))"
  using assms by (simp add: conductItem_def slice_from_def slice_to_def)

lemma addLeftOver_empty: "u_idx u = 0 \<Longrightarrow> addLeftOver u bs = Inr (u, [], 0)"
  by (simp add: addLeftOver_def)

lemma held_empty: "u_idx u = 0 \<Longrightarrow> held u = []"
  by (simp add: held_def)

lemma held_length: "u_ok u \<Longrightarrow> length (held u) = nat (u_idx u)"
  by (auto simp: held_def u_ok_def)

lemma addLeftOver_spec:
  assumes "u_ok u" "u_idx u \<noteq> 0"
  shows "\<exists>u' out n. addLeftOver u bs = Inr (u', out, n) \<and> length (u_lo u') = 4
     \<and> u_inv u' = u_inv u
     \<and> ((\<exists>k. 1 \<le> k \<and> k \<le> length bs \<and> n = int k
            \<and> out = [FromTmp (held u @ take k bs)] \<and> u_idx u' = 0
            \<and> FullRune (held u @ take k bs)
            \<and> (\<forall>k'. 1 \<le> k' \<and> k' < k \<longrightarrow> \<not> FullRune (held u @ take k' bs)))
         \<or> (n = int (length bs) \<and> out = [] \<and> u_idx u' = u_idx u + int (length bs) \<and> u_idx u' \<le> 3
            \<and> held u' = held u @ bs
            \<and> (\<forall>k'. 1 \<le> k' \<and> k' \<le> length bs \<longrightarrow> \<not> FullRune (held u @ take k' bs))))"
proof -
  have sl: "slice_to (u_lo u) (u_idx u) = Inr (held u)"
    using assms by (simp add: slice_to_def held_def u_ok_def)
  have eq: "addLeftOver u bs = addLoop u bs (held u) 0 (int (length bs))"
    using assms sl by (simp add: addLeftOver_def)
  from addLoop_spec [of u "held u" 0 "int (length bs)" bs] assms
  show ?thesis unfolding eq by (simp add: u_ok_def held_def)
qed

lemma conductItem_general:
  assumes "u_ok u"
  shows "\<exists>u' out. conductItem u (Bytes bs) = Inr (u', out) \<and> u_ok u' \<and> u_inv u' = u_inv u
    \<and> concat (map at_send out) @ held u' = held u @ bs
    \<and> (\<forall>x\<in>set out. \<forall>m. x \<noteq> FromInv m)"
proof (cases "u_idx u = 0")
  case True
  from storeLeftOver_spec [of u bs] assms True
  obtain u' l where r: "storeLeftOver u bs = Inr (u', l)" "length (u_lo u') = 4" "u_inv u' = u_inv u"
    "0 \<le> l" "l \<le> int (length bs)" "u_idx u' = int (length bs) - l" "u_idx u' \<le> 3"
    "take (nat (u_idx u')) (u_lo u') = drop (nat l) bs"
    unfolding u_ok_def by blast
  have "conductItem u (Bytes bs) =
      Inr (u', [] @ (if length (take (nat l) (drop (nat 0) bs)) > 0
                     then [FromInput (take (nat l) (drop (nat 0) bs))] else []))"
    by (rule conductItem_unfold [OF addLeftOver_empty [OF True]]) (use r in simp_all)
  moreover have "u_ok u'" using r by (simp add: u_ok_def)
  moreover have "held u' = drop (nat l) bs" using r by (simp add: held_def)
  ultimately show ?thesis using r(3) True by (simp add: held_empty)
next
  case False
  from addLeftOver_spec [OF assms False, of bs]
  obtain u1 out1 n where a: "addLeftOver u bs = Inr (u1, out1, n)" "length (u_lo u1) = 4"
    "u_inv u1 = u_inv u"
    and alt: "(\<exists>k. 1 \<le> k \<and> k \<le> length bs \<and> n = int k
            \<and> out1 = [FromTmp (held u @ take k bs)] \<and> u_idx u1 = 0
            \<and> FullRune (held u @ take k bs)
            \<and> (\<forall>k'. 1 \<le> k' \<and> k' < k \<longrightarrow> \<not> FullRune (held u @ take k' bs)))
         \<or> (n = int (length bs) \<and> out1 = [] \<and> u_idx u1 = u_idx u + int (length bs) \<and> u_idx u1 \<le> 3
            \<and> held u1 = held u @ bs
            \<and> (\<forall>k'. 1 \<le> k' \<and> k' \<le> length bs \<longrightarrow> \<not> FullRune (held u @ take k' bs)))"
    by blast
  from alt show ?thesis
  proof
    assume "\<exists>k. 1 \<le> k \<and> k \<le> length bs \<and> n = int k
            \<and> out1 = [FromTmp (held u @ take k bs)] \<and> u_idx u1 = 0
            \<and> FullRune (held u @ take k bs)
            \<and> (\<forall>k'. 1 \<le> k' \<and> k' < k \<longrightarrow> \<not> FullRune (held u @ take k' bs))"
    then obtain k where k: "1 \<le> k" "k \<le> length bs" "n = int k"
      "out1 = [FromTmp (held u @ take k bs)]" "u_idx u1 = 0"
      by blast
    define b2 where "b2 = drop k bs"
    from storeLeftOver_spec [of u1 b2] a(2) k(5)
    obtain u' l where r: "storeLeftOver u1 b2 = Inr (u', l)" "length (u_lo u') = 4"
      "u_inv u' = u_inv u1" "0 \<le> l" "l \<le> int (length b2)" "u_idx u' = int (length b2) - l"
      "u_idx u' \<le> 3" "take (nat (u_idx u')) (u_lo u') = drop (nat l) b2"
      by blast
    have "conductItem u (Bytes bs) =
      Inr (u', out1 @ (if length (take (nat l) (drop (nat n) bs)) > 0
                     then [FromInput (take (nat l) (drop (nat n) bs))] else []))"
      by (rule conductItem_unfold [OF a(1)]) (use r k in \<open>simp_all add: b2_def\<close>)
    moreover have "u_ok u'" using r by (simp add: u_ok_def)
    moreover have "held u' = drop (nat l) b2" using r by (simp add: held_def)
    moreover have "drop (nat n) bs = b2" using k by (simp add: b2_def)
    moreover have "take k bs @ take (nat l) b2 @ drop (nat l) b2 = bs"
      by (simp only: append_take_drop_id b2_def)
    ultimately show ?thesis using r(3) a(3) k(4) by auto
  next
    assume b: "n = int (length bs) \<and> out1 = [] \<and> u_idx u1 = u_idx u + int (length bs) \<and> u_idx u1 \<le> 3
            \<and> held u1 = held u @ bs
            \<and> (\<forall>k'. 1 \<le> k' \<and> k' \<le> length bs \<longrightarrow> \<not> FullRune (held u @ take k' bs))"
    have st: "storeLeftOver u1 (drop (nat n) bs) = Inr (u1, 0)"
      using b by (simp add: storeLeftOver_def)
    have "conductItem u (Bytes bs) =
      Inr (u1, out1 @ (if length (take (nat 0) (drop (nat n) bs)) > 0
                     then [FromInput (take (nat 0) (drop (nat n) bs))] else []))"
      by (rule conductItem_unfold [OF a(1) _ _ st]) (use b in simp_all)
    moreover have "u_ok u1" using a(2) b assms by (simp add: u_ok_def)
    ultimately show ?thesis using a(3) b by simp
  qed
qed

lemma Conduct_general:
  assumes "u_ok u"
  shows "\<exists>u' out. Conduct u (map Bytes chunks) = Inr (u', out, None) \<and> u_ok u' \<and> u_inv u' = u_inv u
    \<and> concat (map at_send out) @ held u' = held u @ concat chunks
    \<and> (\<forall>x\<in>set out. \<forall>m. x \<noteq> FromInv m)"
  using assms
proof (induction chunks arbitrary: u)
  case Nil
  then show ?case by simp
next
  case (Cons bs chunks)
  from conductItem_general [OF Cons.prems, of bs]
  obtain u1 out1 where a: "conductItem u (Bytes bs) = Inr (u1, out1)" "u_ok u1" "u_inv u1 = u_inv u"
    "concat (map at_send out1) @ held u1 = held u @ bs" "\<forall>x\<in>set out1. \<forall>m. x \<noteq> FromInv m"
    by blast
  from Cons.IH [OF a(2)]
  obtain u2 out2 where b: "Conduct u1 (map Bytes chunks) = Inr (u2, out2, None)" "u_ok u2"
    "u_inv u2 = u_inv u1" "concat (map at_send out2) @ held u2 = held u1 @ concat chunks"
    "\<forall>x\<in>set out2. \<forall>m. x \<noteq> FromInv m"
    by blast
  have "Conduct u (map Bytes (bs # chunks)) = Inr (u2, out1 @ out2, None)"
    using a(1) b(1) by simp
  moreover have "concat (map at_send (out1 @ out2)) @ held u2 = held u @ concat (bs # chunks)"
  proof -
    have "concat (map at_send (out1 @ out2)) @ held u2
        = concat (map at_send out1) @ (concat (map at_send out2) @ held u2)" by simp
    also have "\<dots> = (concat (map at_send out1) @ held u1) @ concat chunks"
      unfolding b(4) by simp
    also have "\<dots> = held u @ concat (bs # chunks)"
      unfolding a(4) by simp
    finally show ?thesis .
  qed
  ultimately show ?case using a(3,5) b(2,3,5) by auto
qed

lemma u_ok_New: "u_ok NewUtf8Conduit" "held NewUtf8Conduit = []"
  by (simp_all add: u_ok_def NewUtf8Conduit_def UTFMax_def held_def)

lemma conductItem_valid:
  assumes ok: "u_ok u" and hp: "partial (held u)" and eq: "held u @ bs = concat cs1 @ p1"
    and cs: "\<forall>c\<in>set cs1. good c" and p1: "partial p1"
  shows "\<exists>u' out. conductItem u (Bytes bs) = Inr (u', out) \<and> u_ok u' \<and> u_inv u' = u_inv u
    \<and> held u' = p1 \<and> concat (map at_send out) = concat cs1
    \<and> (\<forall>x\<in>set out. \<exists>cs. cs \<noteq> [] \<and> (\<forall>c\<in>set cs. good c) \<and> at_send x = concat cs)"
proof (cases "u_idx u = 0")
  case True
  then have bs: "bs = concat cs1 @ p1" using eq by (simp add: held_empty)
  from storeLeftOver_valid [OF ok True bs cs p1]
  obtain u' where r: "storeLeftOver u bs = Inr (u', int (length (concat cs1)))" "u_ok u'"
    "u_inv u' = u_inv u" "held u' = p1"
    by blast
  have "conductItem u (Bytes bs) =
      Inr (u', [] @ (if length (take (nat (int (length (concat cs1)))) (drop (nat 0) bs)) > 0
                     then [FromInput (take (nat (int (length (concat cs1)))) (drop (nat 0) bs))] else []))"
    by (rule conductItem_unfold [OF addLeftOver_empty [OF True]]) (use r bs in simp_all)
  moreover have "take (length (concat cs1)) bs = concat cs1" by (simp add: bs)
  moreover have "cs1 \<noteq> []" if "concat cs1 \<noteq> []" using that by auto
  ultimately show ?thesis using r(2,3,4) cs by auto
next
  case False
  define h where "h = held u"
  have hl: "length h = nat (u_idx u)" "h \<noteq> []"
    using ok False held_length [OF ok] by (auto simp: h_def u_ok_def)
  from addLeftOver_spec [OF ok False, of bs]
  obtain u1 out1 n where a: "addLeftOver u bs = Inr (u1, out1, n)" "length (u_lo u1) = 4"
    "u_inv u1 = u_inv u"
    and alt: "(\<exists>k. 1 \<le> k \<and> k \<le> length bs \<and> n = int k
            \<and> out1 = [FromTmp (h @ take k bs)] \<and> u_idx u1 = 0
            \<and> FullRune (h @ take k bs)
            \<and> (\<forall>k'. 1 \<le> k' \<and> k' < k \<longrightarrow> \<not> FullRune (h @ take k' bs)))
         \<or> (n = int (length bs) \<and> out1 = [] \<and> u_idx u1 = u_idx u + int (length bs) \<and> u_idx u1 \<le> 3
            \<and> held u1 = h @ bs
            \<and> (\<forall>k'. 1 \<le> k' \<and> k' \<le> length bs \<longrightarrow> \<not> FullRune (h @ take k' bs)))"
    unfolding h_def by blast
  show ?thesis
  proof (cases cs1)
    case Nil
    then have hb: "h @ bs = p1" using eq by (simp add: h_def)
    from p1 obtain q1 where q1: "q1 \<noteq> []" "good (p1 @ q1)" by (auto simp: partial_def)
    have nf: "\<not> FullRune (h @ take k' bs)" if "1 \<le> k'" "k' \<le> length bs" for k'
    proof -
      have "1 \<le> length q1"
        using q1(1) by (cases q1) simp_all
      moreover have "length (p1 @ q1) = length h + length bs + length q1"
        using hb [symmetric] by simp
      ultimately have "0 < length h + k'" "length h + k' < length (p1 @ q1)"
        using that by linarith+
      moreover have "h @ take k' bs = take (length h + k') (p1 @ q1)"
        using that hb [symmetric] by simp
      ultimately show ?thesis using FullRune_prefix [OF q1(2), of "length h + k'"] by simp
    qed
    from alt nf have b: "n = int (length bs)" "out1 = []" "u_idx u1 = u_idx u + int (length bs)"
      "u_idx u1 \<le> 3" "held u1 = h @ bs"
      by blast+
    have st: "storeLeftOver u1 (drop (nat n) bs) = Inr (u1, 0)"
      using b by (simp add: storeLeftOver_def)
    have "conductItem u (Bytes bs) =
      Inr (u1, out1 @ (if length (take (nat 0) (drop (nat n) bs)) > 0
                     then [FromInput (take (nat 0) (drop (nat n) bs))] else []))"
      by (rule conductItem_unfold [OF a(1) _ _ st]) (use b in simp_all)
    moreover have "u_ok u1" using a(2) b ok by (simp add: u_ok_def)
    ultimately show ?thesis using a(3) b hb Nil by simp
  next
    case (Cons c cs')
    define rest where "rest = concat cs' @ p1"
    have gc: "good c" using cs Cons by simp
    have hb: "h @ bs = c @ rest" using eq Cons by (simp add: h_def rest_def)
    from hp obtain q where q: "q \<noteq> []" "good (h @ q)" by (auto simp: partial_def h_def)
    have cne: "c \<noteq> []" using gc by (rule good_nonempty)
    have "(h @ q) ! 0 = c ! 0"
    proof -
      have "(h @ bs) ! 0 = h ! 0" using hl(2) by (simp add: nth_append)
      moreover have "(c @ rest) ! 0 = c ! 0" using cne by (simp add: nth_append)
      moreover have "(h @ q) ! 0 = h ! 0" using hl(2) by (simp add: nth_append)
      ultimately show ?thesis using hb by simp
    qed
    from good_length_lead [OF q(2) gc this] have lc: "length h < length c"
      using q(1) by (cases q) auto
    define d where "d = drop (length h) c"
    have "take (length h) (h @ bs) = take (length h) (c @ rest)" using hb by simp
    then have hc: "h = take (length h) c" using lc by simp
    then have c: "c = h @ d" unfolding d_def by (metis append_take_drop_id)
    have dne: "d \<noteq> []" "1 \<le> length d" using lc by (auto simp: d_def Suc_le_eq)
    have bs: "bs = d @ rest" using hb c by simp
    have full: "FullRune (h @ take (length d) bs)"
      using FullRune_good [OF gc] by (simp add: bs c [symmetric])
    have nf: "\<not> FullRune (h @ take k' bs)" if "1 \<le> k'" "k' < length d" for k'
    proof -
      have "take (length h + k') (h @ d) = h @ take k' d"
        by simp
      moreover have "take k' bs = take k' d"
        using that by (simp add: bs)
      ultimately have "h @ take k' bs = take (length h + k') c"
        using c by simp
      moreover have "length c = length h + length d"
        using c by (metis length_append)
      then have "0 < length h + k'" "length h + k' < length c"
        using that by linarith+
      ultimately show ?thesis using FullRune_prefix [OF gc, of "length h + k'"] by simp
    qed
    have dl: "length d \<le> length bs" by (simp add: bs)
    from alt obtain k where k: "1 \<le> k" "k \<le> length bs" "n = int k"
      "out1 = [FromTmp (h @ take k bs)]" "u_idx u1 = 0" "FullRune (h @ take k bs)"
      "\<forall>k'. 1 \<le> k' \<and> k' < k \<longrightarrow> \<not> FullRune (h @ take k' bs)"
      using full dne(2) dl by blast
    have "k = length d"
    proof (rule ccontr)
      assume "k \<noteq> length d"
      then consider "k < length d" | "length d < k" by linarith
      then show False
      proof cases
        case 1
        then show ?thesis using nf [of k] k(1,6) by simp
      next
        case 2
        then show ?thesis using k(7) full dne(2) by blast
      qed
    qed
    then have k': "n = int (length d)" "out1 = [FromTmp c]"
      using k(3,4) by (simp_all add: bs c [symmetric])
    have ok1: "u_ok u1" using a(2) k(5) by (simp add: u_ok_def)
    have b2: "drop (nat n) bs = concat cs' @ p1" using k' by (simp add: bs rest_def)
    have cs': "\<forall>c\<in>set cs'. good c" using cs Cons by simp
    from storeLeftOver_valid [OF ok1 k(5) b2 cs' p1]
    obtain u' where r: "storeLeftOver u1 (drop (nat n) bs) = Inr (u', int (length (concat cs')))"
      "u_ok u'" "u_inv u' = u_inv u1" "held u' = p1"
      by blast
    have lr: "int (length (concat cs')) \<le> int (length bs) - int (length d)"
      by (simp add: bs rest_def)
    have "conductItem u (Bytes bs) =
      Inr (u', out1 @ (if length (take (nat (int (length (concat cs')))) (drop (nat n) bs)) > 0
             then [FromInput (take (nat (int (length (concat cs')))) (drop (nat n) bs))] else []))"
      by (rule conductItem_unfold [OF a(1) _ _ r(1)]) (use k' dl lr in simp_all)
    moreover have "take (length (concat cs')) (drop (nat n) bs) = concat cs'"
      by (simp add: b2)
    moreover have "cs' \<noteq> []" if "concat cs' \<noteq> []" using that by auto
    moreover have "\<exists>cs. cs \<noteq> [] \<and> (\<forall>c\<in>set cs. good c) \<and> c = concat cs"
      using gc by (intro exI [of _ "[c]"]) simp
    ultimately show ?thesis using r(2,3,4) a(3) k'(2) cs' Cons by auto
  qed
qed

lemma DecodeRune_append:
  assumes "good c"
  shows "DecodeRune (c @ rest) = DecodeRune c"
  using good_struct [OF assms] first_in [of "c ! 0"]
  apply (elim disjE)
          apply (simp_all add: DecodeRune_def Let_def nth_append)
  done

lemma decodable_chars: "decodable bs \<Longrightarrow> \<exists>cs. (\<forall>c\<in>set cs. good c) \<and> concat cs = bs"
proof (induction bs rule: decodable.induct)
  case (1 bs)
  show ?case
  proof (cases "bs = []")
    case True
    then show ?thesis by (intro exI [of _ "[]"]) simp
  next
    case False
    obtain r n where rn: "DecodeRune bs = (r, n)" by (cases "DecodeRune bs") auto
    have r: "r \<noteq> RuneError" and d: "decodable (drop (nat n) bs)"
      using "1.prems" False rn by (subst (asm) decodable.simps, simp split: if_splits)+
    from "1.IH" [OF False rn [symmetric] r d]
    obtain cs where cs: "\<forall>c\<in>set cs. good c" "concat cs = drop (nat n) bs" by blast
    from DecodeRune_take [OF rn r] have "good (take (nat n) bs)" by simp
    then show ?thesis using cs by (intro exI [of _ "take (nat n) bs # cs"]) simp
  qed
qed

lemma chars_decodable: "\<forall>c\<in>set cs. good c \<Longrightarrow> decodable (concat cs)"
proof (induction cs)
  case Nil
  then show ?case by (simp add: decodable.simps)
next
  case (Cons c cs)
  then have g: "good c" by simp
  then obtain r where r: "DecodeRune c = (r, int (length c))" "r \<noteq> RuneError"
    by (cases "DecodeRune c") (auto simp: good_def)
  have "DecodeRune (c @ concat cs) = (r, int (length c))"
    using DecodeRune_append [OF g] r by simp
  moreover have "c @ concat cs \<noteq> []" using good_nonempty [OF g] by simp
  ultimately show ?case using Cons r(2) by (subst decodable.simps) simp
qed

lemma partial_not_char:
  assumes "partial h" "h = concat cs @ p" "\<forall>c\<in>set cs. good c"
  shows "cs = []"
proof (cases cs)
  case Nil
  then show ?thesis .
next
  case (Cons c cs')
  then have g: "good c" using assms(3) by simp
  from assms(1) obtain q where q: "q \<noteq> []" "good (h @ q)" by (auto simp: partial_def)
  have cne: "c \<noteq> []" using g by (rule good_nonempty)
  have h: "h = c @ (concat cs' @ p)" using assms(2) Cons by simp
  then have "(h @ q) ! 0 = c ! 0" using cne by (simp add: nth_append)
  from good_length_lead [OF q(2) g this] have "length h + length q = length c" by simp
  moreover have "length c \<le> length h" using h by simp
  moreover have "0 < length q" using q(1) by simp
  ultimately show ?thesis by linarith
qed

lemma text_split:
  assumes "xs @ ys = concat cs @ p" "\<forall>c\<in>set cs. good c" "partial p"
  shows "\<exists>cs1 p1 cs2. xs = concat cs1 @ p1 \<and> (\<forall>c\<in>set cs1. good c) \<and> partial p1
      \<and> p1 @ ys = concat cs2 @ p \<and> (\<forall>c\<in>set cs2. good c)"
  using assms
proof (induction cs arbitrary: xs)
  case Nil
  then have "partial (xs @ ys)" by simp
  then have "partial xs" by (rule partial_prefix)
  then show ?case using Nil by (intro exI [of _ "[]"] exI [of _ xs]) simp
next
  case (Cons c cs)
  then have g: "good c" by simp
  show ?case
  proof (cases "length c \<le> length xs")
    case True
    define xs' where "xs' = drop (length c) xs"
    have "take (length c) (xs @ ys) = take (length c) (c @ concat cs @ p)"
      using Cons.prems(1) by simp
    then have tk: "take (length c) xs = c" using True by simp
    then have xs: "xs = c @ xs'" unfolding xs'_def by (metis append_take_drop_id)
    then have "xs' @ ys = concat cs @ p" using Cons.prems(1) by simp
    from Cons.IH [OF this] Cons.prems
    obtain cs1 p1 cs2 where r: "xs' = concat cs1 @ p1" "\<forall>c\<in>set cs1. good c" "partial p1"
      "p1 @ ys = concat cs2 @ p" "\<forall>c\<in>set cs2. good c"
      by auto
    show ?thesis
      using r g xs by (intro exI [of _ "c # cs1"] exI [of _ p1] exI [of _ cs2]) simp
  next
    case False
    define d where "d = drop (length xs) c"
    have "take (length xs) (xs @ ys) = take (length xs) (c @ concat cs @ p)"
      using Cons.prems(1) by simp
    then have "xs = take (length xs) c" using False by simp
    then have c: "c = xs @ d" unfolding d_def by (metis append_take_drop_id)
    have "d \<noteq> []" using False by (simp add: d_def)
    then have "partial xs" using g c by (auto simp: partial_def)
    then show ?thesis
      using Cons.prems by (intro exI [of _ "[]"] exI [of _ xs] exI [of _ "c # cs"]) simp
  qed
qed

lemma Conduct_valid:
  assumes "u_ok u" "partial (held u)" "held u @ concat chunks = concat cs @ p"
    "\<forall>c\<in>set cs. good c" "partial p"
  shows "\<exists>u' out. Conduct u (map Bytes chunks) = Inr (u', out, None) \<and> u_ok u' \<and> held u' = p
    \<and> concat (map at_send out) = concat cs
    \<and> (\<forall>x\<in>set out. \<exists>cs. cs \<noteq> [] \<and> (\<forall>c\<in>set cs. good c) \<and> at_send x = concat cs)"
  using assms
proof (induction chunks arbitrary: u cs)
  case Nil
  then have h: "held u = concat cs @ p" by simp
  from partial_not_char [OF Nil.prems(2) h Nil.prems(4)] have "cs = []" .
  then show ?case using Nil.prems h by simp
next
  case (Cons bs chunks)
  have "(held u @ bs) @ concat chunks = concat cs @ p"
    using Cons.prems(3) by simp
  from text_split [OF this Cons.prems(4,5)]
  obtain cs1 p1 cs2 where sp: "held u @ bs = concat cs1 @ p1" "\<forall>c\<in>set cs1. good c" "partial p1"
    "p1 @ concat chunks = concat cs2 @ p" "\<forall>c\<in>set cs2. good c"
    by blast
  from conductItem_valid [OF Cons.prems(1,2) sp(1,2,3)]
  obtain u1 out1 where a: "conductItem u (Bytes bs) = Inr (u1, out1)" "u_ok u1" "held u1 = p1"
    "concat (map at_send out1) = concat cs1"
    "\<forall>x\<in>set out1. \<exists>cs. cs \<noteq> [] \<and> (\<forall>c\<in>set cs. good c) \<and> at_send x = concat cs"
    by blast
  have "held u1 @ concat chunks = concat cs2 @ p" using a(3) sp(4) by simp
  from Cons.IH [OF a(2) _ this sp(5) Cons.prems(5)] a(3) sp(3)
  obtain u2 out2 where b: "Conduct u1 (map Bytes chunks) = Inr (u2, out2, None)" "u_ok u2"
    "held u2 = p" "concat (map at_send out2) = concat cs2"
    "\<forall>x\<in>set out2. \<exists>cs. cs \<noteq> [] \<and> (\<forall>c\<in>set cs. good c) \<and> at_send x = concat cs"
    by auto
  have "Conduct u (map Bytes (bs # chunks)) = Inr (u2, out1 @ out2, None)"
    using a(1) b(1) by simp
  moreover have "concat (map at_send (out1 @ out2)) = concat cs"
  proof -
    have "concat cs1 @ concat cs2 @ p = (held u @ bs) @ concat chunks"
      using sp(1,4) by simp
    also have "\<dots> = concat cs @ p" using Cons.prems(3) by simp
    finally have "concat cs1 @ concat cs2 = concat cs" by simp
    then show ?thesis using a(4) b(4) by simp
  qed
  ultimately show ?case using a(5) b(2,3,5) by auto
qed

section \<open>The slices sent and the leftover buffer\<close>

text \<open>
  At the moment \<open>addLeftOver\<close> sends \<open>tmp\<close>, the leftover buffer holds, in its first
  bytes, the bytes recorded for the send: the record of a send agrees with the array that
  the slice views.
\<close>

lemma addLoop_sends_buffer:
  assumes "length (u_lo u) = 4" "0 \<le> u_idx u" "u_idx u \<le> 3" "tmp = take (nat (u_idx u)) (u_lo u)"
    "addLoop u bs tmp i s = Inr (u', out, n)" "x \<in> set out"
  shows "reads u' x = at_send x"
  using assms
proof (induction u bs tmp i s rule: addLoop.induct)
  case (1 u bs tmp i s)
  have ltmp: "length tmp = nat (u_idx u)"
    using "1.prems" by simp
  show ?case
  proof (cases "i < s \<and> u_idx u < UTFMax")
    case False
    then have "addLoop u bs tmp i s = Inr (u, [], s)"
      using "1.prems"(3) by (subst addLoop.simps) (simp add: UTFMax_def)
    then show ?thesis
      using "1.prems"(5,6) by simp
  next
    case guard: True
    show ?thesis
    proof (cases "index bs i")
      case (Inl e)
      then have "addLoop u bs tmp i s = Inl e"
        using guard by (subst addLoop.simps) simp
      then show ?thesis
        using "1.prems"(5) by simp
    next
      case (Inr b)
      define lo' where "lo' = (u_lo u)[length tmp := b]"
      have lt: "length tmp < length (u_lo u)"
        using ltmp "1.prems"(1-3) by simp
      then have ap: "append_tmp (u_lo u) tmp b = (lo', tmp @ [b])"
        by (simp add: append_tmp_def lo'_def)
      have tk: "take (Suc (length tmp)) lo' = tmp @ [b]"
        using lt "1.prems"(4) ltmp by (simp add: lo'_def take_Suc_conv_app_nth)
      show ?thesis
      proof (cases "FullRune (tmp @ [b])")
        case True
        have "addLoop u bs tmp i s = Inr (u\<lparr>u_lo := lo', u_idx := 0\<rparr>, [FromTmp (tmp @ [b])], i + 1)"
          using guard Inr ap True by (subst addLoop.simps) simp
        then show ?thesis
          using "1.prems"(5,6) tk by auto
      next
        case False
        define u1 where "u1 = u\<lparr>u_lo := lo', u_idx := u_idx u + 1\<rparr>"
        have step: "addLoop u bs tmp i s = addLoop u1 bs (tmp @ [b]) (i + 1) s"
          using guard Inr ap False by (subst addLoop.simps) (simp add: u1_def)
        have idx2: "u_idx u \<le> 2"
        proof (rule ccontr)
          assume "\<not> u_idx u \<le> 2"
          then have "length (tmp @ [b]) = 4" using ltmp "1.prems"(2,3) by simp
          then show False using False FullRune_len4 [of "tmp @ [b]"] by simp
        qed
        have n1: "nat (u_idx u + 1) = Suc (length tmp)"
          using ltmp "1.prems"(2) by simp
        have "reads u' x = at_send x"
        proof (rule "1.IH" [OF guard Inr ap [symmetric] False])
          show "length (u_lo (u\<lparr>u_lo := lo', u_idx := u_idx u + 1\<rparr>)) = 4"
            using "1.prems"(1) by (simp add: lo'_def)
          show "0 \<le> u_idx (u\<lparr>u_lo := lo', u_idx := u_idx u + 1\<rparr>)"
            using "1.prems"(2) by simp
          show "u_idx (u\<lparr>u_lo := lo', u_idx := u_idx u + 1\<rparr>) \<le> 3"
            using idx2 by simp
          show "tmp @ [b] = take (nat (u_idx (u\<lparr>u_lo := lo', u_idx := u_idx u + 1\<rparr>)))
                  (u_lo (u\<lparr>u_lo := lo', u_idx := u_idx u + 1\<rparr>))"
            using tk n1 by simp
          show "addLoop (u\<lparr>u_lo := lo', u_idx := u_idx u + 1\<rparr>) bs (tmp @ [b]) (i + 1) s = Inr (u', out, n)"
            using step "1.prems"(5) by (simp add: u1_def)
          show "x \<in> set out" by (rule "1.prems"(6))
        qed
        then show ?thesis .
      qed
    qed
  qed
qed

lemma addLeftOver_sends_buffer:
  assumes "u_ok u" "addLeftOver u bs = Inr (u', out, n)" "x \<in> set out"
  shows "reads u' x = at_send x"
proof (cases "u_idx u = 0")
  case True
  then show ?thesis
    using assms(2,3) by (simp add: addLeftOver_def)
next
  case False
  have st: "slice_to (u_lo u) (u_idx u) = Inr (take (nat (u_idx u)) (u_lo u))"
    using assms(1) by (simp add: slice_to_def u_ok_def)
  have "addLoop u bs (take (nat (u_idx u)) (u_lo u)) 0 (int (length bs)) = Inr (u', out, n)"
    using False assms(2) st by (simp add: addLeftOver_def)
  from addLoop_sends_buffer [OF _ _ _ refl this assms(3)] assms(1)
  show ?thesis
    by (simp add: u_ok_def)
qed

section \<open>Whole streams\<close>

lemma New_eq: "NewUtf8Conduit = \<lparr>u_lo = [0, 0, 0, 0], u_inv = [0xEF, 0xBF, 0xBD], u_idx = 0\<rparr>"
  by (simp add: NewUtf8Conduit_def UTFMax_def numeral_eq_Suc)

text \<open>
  Evaluation rules for the loops, each under the condition that decides its branch, so
  that they rewrite closed terms only.
\<close>

lemma lastRuneStart_stop: "start < lim \<Longrightarrow> lastRuneStart p start lim = start"
  by (subst lastRuneStart.simps) simp

lemma lastRuneStart_step:
  "lim \<le> start \<Longrightarrow> lastRuneStart p start lim =
     (if RuneStart (p ! nat start) then start else lastRuneStart p (start - 1) lim)"
  by (subst lastRuneStart.simps) simp

lemma storeLoop_stop: "\<not> i < s \<Longrightarrow> storeLoop u bs i s = Inr u"
  by (subst storeLoop.simps) simp

lemma storeLoop_step:
  "i < s \<Longrightarrow> storeLoop u bs i s =
     (case index bs i of
        Inl e \<Rightarrow> Inl e
      | Inr b \<Rightarrow>
          (case assign (u_lo u) (u_idx u) b of
             Inl e \<Rightarrow> Inl e
           | Inr lo' \<Rightarrow> storeLoop (u\<lparr>u_lo := lo', u_idx := u_idx u + 1\<rparr>) bs (i + 1) s))"
  by (subst storeLoop.simps) simp

lemma scanBack_stop: "\<not> (l \<ge> 0 \<and> l > lmin) \<Longrightarrow> scanBack bs lmin l = Inr (l, False)"
  by (subst scanBack.simps) auto

lemma scanBack_step:
  "l \<ge> 0 \<and> l > lmin \<Longrightarrow> scanBack bs lmin l =
     (case slice_to bs l of
        Inl e \<Rightarrow> Inl e
      | Inr pre \<Rightarrow>
          if fst (DecodeLastRune pre) \<noteq> RuneError then Inr (l, True)
          else scanBack bs lmin (l - 1))"
  by (subst scanBack.simps) simp

lemma addLoop_stop:
  "\<not> (i < s \<and> u_idx u < UTFMax) \<Longrightarrow> addLoop u bs tmp i s =
     (if u_idx u = UTFMax then Inr (u\<lparr>u_idx := 0\<rparr>, [FromInv (u_inv u)], i) else Inr (u, [], s))"
  by (subst addLoop.simps) auto

lemma addLoop_step:
  "i < s \<and> u_idx u < UTFMax \<Longrightarrow> addLoop u bs tmp i s =
     (case index bs i of
        Inl e \<Rightarrow> Inl e
      | Inr b \<Rightarrow>
          (case append_tmp (u_lo u) tmp b of
             (lo', tmp') \<Rightarrow>
               if FullRune tmp' then Inr (u\<lparr>u_lo := lo', u_idx := 0\<rparr>, [FromTmp tmp'], i + 1)
               else addLoop (u\<lparr>u_lo := lo', u_idx := u_idx u + 1\<rparr>) bs tmp' (i + 1) s))"
  by (subst addLoop.simps) simp

lemma decodable_Nil: "decodable []"
  by (subst decodable.simps) simp

lemma decodable_step:
  "bs \<noteq> [] \<Longrightarrow> decodable bs =
     (case DecodeRune bs of
        (r, n) \<Rightarrow> if r = RuneError then False else decodable (drop (nat n) bs))"
  by (subst decodable.simps) simp

lemma valid_utf8_Nil: "valid_utf8 []"
  by (subst valid_utf8.simps) simp

lemma valid_utf8_step:
  "bs \<noteq> [] \<Longrightarrow> valid_utf8 bs =
     (case DecodeRune bs of
        (r, n) \<Rightarrow> if r = RuneError \<and> n = 1 then False else valid_utf8 (drop (nat n) bs))"
  by (subst valid_utf8.simps) simp

lemmas conduct_eval = conductItem_def addLeftOver_def storeLeftOver_def UTFMax_def
  Let_def index_def assign_def slice_to_def slice_from_def append_tmp_def
  addLoop_stop addLoop_step storeLoop_stop storeLoop_step scanBack_stop scanBack_step
  lastRuneStart_stop lastRuneStart_step
  DecodeLastRune_def DecodeRune_def FullRune_def first_def acceptRanges_def RuneStart_def
  RuneError_def RuneSelf_def

lemmas decode_steps = decodable_Nil decodable_step valid_utf8_Nil valid_utf8_step

lemmas decode_eval = decode_steps DecodeRune_def first_def acceptRanges_def Let_def RuneError_def

lemma isBytes_iff: "isBytes x \<longleftrightarrow> (\<exists>bs. x = Bytes bs)"
  by (cases x) simp_all

lemma conductItem_not_bytes: "\<not> isBytes x \<Longrightarrow> conductItem u x = Inl TypeAssertionFailed"
  by (cases x) (simp_all add: conductItem_def)

lemma Conduct_items:
  assumes "u_ok u"
  shows "if \<exists>x\<in>set items. \<not> isBytes x then Conduct u items = Inl TypeAssertionFailed
         else \<exists>u' out. Conduct u items = Inr (u', out, None) \<and> u_ok u'"
  using assms
proof (induction items arbitrary: u)
  case Nil
  then show ?case by simp
next
  case (Cons x items)
  show ?case
  proof (cases "isBytes x")
    case False
    then show ?thesis by (simp add: conductItem_not_bytes)
  next
    case True
    then obtain bs where x: "x = Bytes bs" by (auto simp: isBytes_iff)
    from conductItem_general [OF Cons.prems, of bs]
    obtain u1 out1 where a: "conductItem u (Bytes bs) = Inr (u1, out1)" "u_ok u1"
      by blast
    from Cons.IH [OF a(2)] show ?thesis
      using a(1) x by (auto split: if_splits)
  qed
qed

lemma Printer_Consume_text:
  "if \<exists>x\<in>set items. \<not> isBytes x then Printer_Consume fmt_v True items = Inl TypeAssertionFailed
   else \<exists>w. Printer_Consume fmt_v True items = Inr (w, None)"
proof (induction items)
  case Nil
  then show ?case by simp
next
  case (Cons x items)
  then show ?case by (cases x) (auto split: if_splits)
qed

section \<open>The steps of a run\<close>

lemma out_chan_set_out [simp]: "out_chan (set_out p c) = c"
  by (cases p) simp_all

lemma set_out_same [simp]: "set_out p (out_chan p) = p"
  by (cases p) simp_all

lemma conduits_set_out [simp]: "conduits (set_out p c) = conduits p"
  by (cases p) simp_all

lemma plen_set_out [simp]: "plen (set_out p c) = plen p"
  by (cases p) simp_all

lemma finished_set_out [simp]: "finished (set_out p c) = finished p"
  by (cases p) simp_all

lemma perrs_set_out [simp]: "perrs perr (set_out p c) = perrs perr p"
  by (cases p) simp_all

lemma produces_set_out [simp]: "produces perr (set_out p c) = produces perr p"
  by (cases p) simp_all

lemma pinv_set_out:
  "chan_closed c = chan_closed (out_chan p) \<Longrightarrow> pinv e (set_out p c) = pinv e p"
  by (cases p) simp_all

lemma flow_pop:
  "chan_buf (out_chan p) = x # xs \<Longrightarrow> flow p = x # flow (set_out p ((out_chan p)\<lparr>chan_buf := xs\<rparr>))"
  by (cases p) simp_all

lemma pweight_pop:
  "chan_buf (out_chan p) = x # xs
    \<Longrightarrow> pweight d p = d + pweight d (set_out p ((out_chan p)\<lparr>chan_buf := xs\<rparr>))"
  by (cases p) simp_all

lemma pinv_mono: "pinv e p \<Longrightarrow> (e \<Longrightarrow> e') \<Longrightarrow> pinv e' p"
  by (induction p) (auto split: cstate.splits option.splits)

lemma addErr_e [simp]: "ch_e (addErr ch err) = True"
  by (simp add: addErr_def Let_def)

lemma addErr_Errs [simp]: "ch_Errs (addErr ch err) = ch_Errs ch @ [err]"
  by (simp add: addErr_def Let_def)

lemma addErr_c [simp]: "ch_c (addErr ch err) = ch_c ch"
  by (simp add: addErr_def Let_def)

lemma react_abort: "react k zero x = Some (Abort e) \<Longrightarrow> \<not> cannot_fail k"
  by (cases k) (auto split: if_splits)

lemma react_identity: "react Identity zero x = Some r \<Longrightarrow> r = Forward x"
  by (auto split: if_splits)

lemma react_go: "\<exists>r. react k False x = Some r"
  by (cases k) auto

text \<open>The steps of a conduit's goroutine, one by one.\<close>

lemma cond_step_cases:
  assumes "cond_step zero k st src trg ready ch = Some (src', st', trg', ch')"
  obtains
    (forward) x xs y where "st = CRecv" "chan_buf src = x # xs" "react k zero x = Some (Forward y)"
      "src' = src\<lparr>chan_buf := xs\<rparr>" "st' = CHold y" "trg' = trg" "ch' = ch"
  | (skip) x xs where "st = CRecv" "chan_buf src = x # xs" "react k zero x = Some Skip"
      "src' = src\<lparr>chan_buf := xs\<rparr>" "st' = CRecv" "trg' = trg" "ch' = ch"
  | (abort) x xs e where "st = CRecv" "chan_buf src = x # xs" "react k zero x = Some (Abort e)"
      "src' = src\<lparr>chan_buf := xs\<rparr>" "st' = CReturned (Some e)" "trg' = trg" "ch' = ch"
  | (eof) "st = CRecv" "chan_buf src = []" "chan_closed src" "\<not> zero"
      "src' = src" "st' = CReturned None" "trg' = trg" "ch' = ch"
  | (send) y where "st = CHold y" "can_send trg ready" "\<not> zero"
      "src' = src" "st' = CRecv" "trg' = trg\<lparr>chan_buf := chan_buf trg @ [y]\<rparr>" "ch' = ch"
  | (retnil) "st = CReturned None" "\<not> zero" "src' = src" "st' = CClose" "trg' = trg" "ch' = ch"
  | (adderr) e where "st = CReturned (Some e)" "\<not> zero" "src' = src" "st' = CClose" "trg' = trg"
      "ch' = addErr ch e"
  | (close) "st = CClose" "\<not> zero" "src' = src" "st' = CDone" "trg' = trg\<lparr>chan_closed := True\<rparr>"
      "ch' = ch"
  using assms
  by (cases st) (auto split: list.splits option.splits reaction.splits if_splits)

lemma prod_step_cases:
  assumes "prod_step ps c ready ch = Some (ps', c', ch')"
  obtains
    (send) x xs err where "ps = PSend (x # xs) err" "can_send c ready" "ps' = PSend xs err"
      "c' = c\<lparr>chan_buf := chan_buf c @ [x]\<rparr>" "ch' = ch"
  | (return) err where "ps = PSend [] err" "ps' = PReturned err" "c' = c" "ch' = ch"
  | (retnil) "ps = PReturned None" "ps' = PClose" "c' = c" "ch' = ch"
  | (adderr) e where "ps = PReturned (Some e)" "ps' = PClose" "c' = c" "ch' = addErr ch e"
  | (close) "ps = PClose" "ps' = PDone" "c' = c\<lparr>chan_closed := True\<rparr>" "ch' = ch"
  using assms
  apply (cases ps)
  subgoal for xs err by (cases xs) (auto split: if_splits)
  subgoal for err by (cases err) auto
  by auto

text \<open>The flag \<open>e\<close> is never unset by a step.\<close>

lemma pstep_e: "pstep a p ready ch = Some (p', ch') \<Longrightarrow> ch_e ch \<Longrightarrow> ch_e ch'"
proof (induction p arbitrary: p' ready)
  case (Source ps c)
  then show ?case
    by (auto split: if_splits option.splits elim!: prod_step_cases)
next
  case (Stage up k st c)
  show ?case
  proof (cases "a = Go (Suc (plen up)) \<or> a = Fail (Suc (plen up))")
    case True
    with Stage.prems show ?thesis
      by (auto split: option.splits elim!: cond_step_cases)
  next
    case False
    with Stage.prems Stage.IH show ?thesis
      by (auto split: option.splits)
  qed
qed

text \<open>A closed channel is not written again.\<close>

lemma pstep_closed:
  "pstep a p ready ch = Some (p', ch') \<Longrightarrow> pinv e p \<Longrightarrow> chan_closed (out_chan p)
    \<Longrightarrow> out_chan p' = out_chan p"
proof (cases p)
  case (Source ps c)
  assume "pstep a p ready ch = Some (p', ch')" "pinv e p" "chan_closed (out_chan p)"
  with Source show ?thesis
    by (auto split: if_splits option.splits)
next
  case (Stage up k st c)
  assume "pstep a p ready ch = Some (p', ch')" "pinv e p" "chan_closed (out_chan p)"
  with Stage show ?thesis
    by (auto split: if_splits option.splits)
qed

lemma pstep_pinv:
  "pstep a p ready ch = Some (p', ch') \<Longrightarrow> pinv (ch_e ch) p \<Longrightarrow> pinv (ch_e ch') p'"
proof (induction p arbitrary: p' ready)
  case (Source ps c)
  then show ?case
    by (auto split: if_splits option.splits elim!: prod_step_cases)
next
  case (Stage up k st c)
  from Stage.prems(2) have up: "pinv (ch_e ch) up"
    and cl: "chan_closed c \<longleftrightarrow> st = CDone" by simp_all
  show ?case
  proof (cases "a = Go (Suc (plen up)) \<or> a = Fail (Suc (plen up))")
    case True
    then obtain src' st' c' where cs:
      "cond_step (a = Fail (Suc (plen up))) k st (out_chan up) c ready ch = Some (src', st', c', ch')"
      and p': "p' = Stage (set_out up src') k st' c'"
      using Stage.prems(1) by (auto split: option.splits)
    from cs show ?thesis
    proof (cases rule: cond_step_cases)
      case (forward x xs y)
      then show ?thesis using up cl p' by (simp add: pinv_set_out)
    next
      case (skip x xs)
      then show ?thesis using up cl p' by (simp add: pinv_set_out)
    next
      case (abort x xs e)
      then show ?thesis using up cl p' react_abort [of k _ x e] by (simp add: pinv_set_out)
    next
      case eof
      then show ?thesis using up cl p' by (simp add: drained_def)
    next
      case (send y)
      then show ?thesis using up cl p' by simp
    next
      case retnil
      then show ?thesis using up cl p' Stage.prems(2) by simp
    next
      case (adderr e)
      then show ?thesis using cl p' Stage.prems(2) pinv_mono [OF up, of True] by simp
    next
      case close
      then show ?thesis using up cl p' Stage.prems(2) by simp
    qed
  next
    case False
    then obtain up' where st: "pstep a up (st = CRecv) ch = Some (up', ch')"
      and p': "p' = Stage up' k st c"
      using Stage.prems(1) by (auto split: option.splits)
    have up': "pinv (ch_e ch') up'"
      by (rule Stage.IH [OF st up])
    have dr: "drained up \<Longrightarrow> drained up'"
      using pstep_closed [OF st up] by (simp add: drained_def)
    have ee: "ch_e ch \<Longrightarrow> ch_e ch'"
      by (rule pstep_e [OF st])
    show ?thesis
      using up' cl p' Stage.prems(2) dr ee
      by (cases st) (auto split: option.splits)
  qed
qed

text \<open>
  Once a channel is closed and empty and no error has been flagged, or no conduit can
  fail, every goroutine behind it has finished and nothing is on its way.
\<close>

lemma drained_finished:
  "pinv e p \<Longrightarrow> \<not> e \<or> list_all cannot_fail (conduits p) \<Longrightarrow> drained p
    \<Longrightarrow> finished p \<and> flow p = []"
proof (induction p)
  case (Source ps c)
  then show ?case by (auto simp: drained_def)
next
  case (Stage up k st c)
  from Stage.prems(1,3) have st: "st = CDone" and up: "pinv e up" and c: "chan_buf c = []"
    by (simp_all add: drained_def)
  from Stage.prems(1,2) st have "drained up"
    by auto
  from Stage.IH [OF up _ this] Stage.prems(2) st c show ?case
    by auto
qed

lemma finished_stuck: "finished p \<Longrightarrow> pstep a p ready ch = None"
  by (induction p arbitrary: ready) auto

lemma pstep_action:
  "pstep a p ready ch = Some (p', ch') \<Longrightarrow> (\<exists>i\<le>plen p. a = Go i \<or> a = Fail i)"
proof (induction p arbitrary: p' ready)
  case (Source ps c)
  then show ?case by (auto split: if_splits)
next
  case (Stage up k st c)
  show ?case
  proof (cases "a = Go (Suc (plen up)) \<or> a = Fail (Suc (plen up))")
    case True
    then show ?thesis by auto
  next
    case False
    then obtain up' where "pstep a up (st = CRecv) ch = Some (up', ch')"
      using Stage.prems by (auto split: option.splits)
    from Stage.IH [OF this] show ?thesis
      using le_Suc_eq by auto
  qed
qed

lemma can_send_empty: "chan_buf c = [] \<Longrightarrow> can_send c True"
  by (auto simp: can_send_def)

text \<open>
  While the outermost channel is open and empty and its reader waits, one of the
  goroutines behind it can move.
\<close>

lemma pstep_progress:
  "pinv e p \<Longrightarrow> chan_buf (out_chan p) = [] \<Longrightarrow> \<not> chan_closed (out_chan p)
    \<Longrightarrow> \<exists>a p' ch'. pstep a p True ch = Some (p', ch')"
proof (induction p)
  case (Source ps c)
  then have nd: "ps \<noteq> PDone" and e: "chan_buf c = []" by simp_all
  have "\<exists>r. prod_step ps c True ch = Some r"
  proof (cases ps)
    case (PSend xs err)
    then show ?thesis using e by (cases xs) (simp_all add: can_send_empty)
  qed (use nd in simp_all)
  then show ?case
    by (auto intro!: exI [of _ "Go 0"])
next
  case (Stage up k st c)
  then have nd: "st \<noteq> CDone" and e: "chan_buf c = []" and up: "pinv e up" by simp_all
  define n where "n = Suc (plen up)"
  show ?case
  proof (cases "st = CRecv \<and> chan_buf (out_chan up) = [] \<and> \<not> chan_closed (out_chan up)")
    case True
    from Stage.IH [OF up] True obtain a up' ch' where s: "pstep a up True ch = Some (up', ch')"
      by blast
    from pstep_action [OF s] have "a \<noteq> Go n" "a \<noteq> Fail n"
      by (auto simp: n_def)
    then have "pstep a (Stage up k st c) True ch = Some (Stage up' k st c, ch')"
      using s True by (simp add: n_def)
    then show ?thesis by blast
  next
    case False
    have "\<exists>r. cond_step False k st (out_chan up) c True ch = Some r"
    proof (cases st)
      case CRecv
      show ?thesis
      proof (cases "chan_buf (out_chan up)")
        case Nil
        then show ?thesis using False CRecv by simp
      next
        case (Cons x xs)
        obtain r where "react k False x = Some r" using react_go by blast
        then show ?thesis using CRecv Cons by (cases r) simp_all
      qed
    next
      case (CHold y)
      then show ?thesis using e by (simp add: can_send_empty)
    qed (use nd in simp_all)
    then obtain src' st' c' ch' where
      "cond_step False k st (out_chan up) c True ch = Some (src', st', c', ch')"
      by (metis prod_cases4)
    then have "pstep (Go n) (Stage up k st c) True ch = Some (Stage (set_out up src') k st' c', ch')"
      by (simp add: n_def)
    then show ?thesis by blast
  qed
qed

text \<open>Every step of a goroutine lowers the bound.\<close>

lemma pstep_weight: "pstep a p ready ch = Some (p', ch') \<Longrightarrow> pweight d p' < pweight d p"
proof (induction p arbitrary: p' ready d)
  case (Source ps c)
  then show ?case
    by (auto split: if_splits option.splits elim!: prod_step_cases)
next
  case (Stage up k st c)
  show ?case
  proof (cases "a = Go (Suc (plen up)) \<or> a = Fail (Suc (plen up))")
    case True
    then obtain src' st' c' where cs:
      "cond_step (a = Fail (Suc (plen up))) k st (out_chan up) c ready ch = Some (src', st', c', ch')"
      and p': "p' = Stage (set_out up src') k st' c'"
      using Stage.prems(1) by (auto split: option.splits)
    from cs show ?thesis
      using p' by (cases rule: cond_step_cases) (auto dest: pweight_pop [where d = "Suc (Suc d)"])
  next
    case False
    then obtain up' where st: "pstep a up (st = CRecv) ch = Some (up', ch')"
      and p': "p' = Stage up' k st c"
      using Stage.prems(1) by (auto split: option.splits)
    from Stage.IH [OF st, of "Suc (Suc d)"] p' show ?thesis by simp
  qed
qed

lemma pstep_conduits: "pstep a p ready ch = Some (p', ch') \<Longrightarrow> conduits p' = conduits p"
proof (induction p arbitrary: p' ready)
  case (Source ps c)
  then show ?case by (auto split: if_splits option.splits)
next
  case (Stage up k st c)
  then show ?case by (auto split: if_splits option.splits)
qed

text \<open>With conduits that are all \<open>Identity\<close> a step leaves the items on their way as they are.\<close>

lemma pstep_flow:
  "pstep a p ready ch = Some (p', ch') \<Longrightarrow> list_all (\<lambda>k. k = Identity) (conduits p)
    \<Longrightarrow> flow p' = flow p"
proof (induction p arbitrary: p' ready)
  case (Source ps c)
  then show ?case
    by (auto split: if_splits option.splits elim!: prod_step_cases)
next
  case (Stage up k st c)
  then have k: "k = Identity" and ids: "list_all (\<lambda>k. k = Identity) (conduits up)" by simp_all
  show ?case
  proof (cases "a = Go (Suc (plen up)) \<or> a = Fail (Suc (plen up))")
    case True
    then obtain src' st' c' where cs:
      "cond_step (a = Fail (Suc (plen up))) k st (out_chan up) c ready ch = Some (src', st', c', ch')"
      and p': "p' = Stage (set_out up src') k st' c'"
      using Stage.prems(1) by (auto split: option.splits)
    from cs show ?thesis
      using p' k by (cases rule: cond_step_cases) (auto dest: flow_pop split: if_splits)
  next
    case False
    then obtain up' where st: "pstep a up (st = CRecv) ch = Some (up', ch')"
      and p': "p' = Stage up' k st c"
      using Stage.prems(1) by (auto split: option.splits)
    from Stage.IH [OF st ids] p' show ?thesis by simp
  qed
qed

text \<open>A step of a goroutine adds at most one error.\<close>

lemma pstep_ch:
  "pstep a p ready ch = Some (p', ch') \<Longrightarrow> ch' = ch \<or> (\<exists>err. ch' = addErr ch err)"
proof (induction p arbitrary: p' ready)
  case (Source ps c)
  then show ?case
    by (auto split: if_splits option.splits elim!: prod_step_cases)
next
  case (Stage up k st c)
  show ?case
  proof (cases "a = Go (Suc (plen up)) \<or> a = Fail (Suc (plen up))")
    case True
    with Stage.prems show ?thesis
      by (auto split: option.splits elim!: cond_step_cases)
  next
    case False
    with Stage.prems Stage.IH show ?thesis
      by (auto split: option.splits)
  qed
qed


text \<open>The steps of the goroutine that called \<open>Run\<close>, one by one.\<close>

lemma main_step_cases:
  assumes "main_step s = Some s'"
  obtains
    (recv) r x xs where "rs_main s = SRecv r" "chan_buf (out_chan (rs_pipe s)) = x # xs"
      "s' = s\<lparr>rs_pipe := set_out (rs_pipe s) ((out_chan (rs_pipe s))\<lparr>chan_buf := xs\<rparr>),
              rs_main := SRecv (r @ [x])\<rparr>"
  | (eof) r cerr where "rs_main s = SRecv r" "drained (rs_pipe s)" "ch_c (rs_ch s) = Collects cerr"
      "s' = s\<lparr>rs_main := SReturned r cerr\<rparr>"
  | (retnil) r where "rs_main s = SReturned r None" "s' = s\<lparr>rs_main := SCheck r\<rparr>"
  | (reterr) r e where "rs_main s = SReturned r (Some e)"
      "s' = s\<lparr>rs_main := SCheck r, rs_ch := addErr (rs_ch s) e\<rparr>"
  | (check) r where "rs_main s = SCheck r"
      "s' = s\<lparr>rs_main := SDone r (if ch_e (rs_ch s) then Some ''Errors occurred'' else None)\<rparr>"
  using assms unfolding main_step_def drained_def
  by (cases "rs_main s")
    (auto split: list.splits if_splits consumer.splits option.splits)

lemma step_cases:
  assumes "step a s = Some s'"
  obtains
    (main) "a = Main" "main_step s = Some s'"
  | (pipe) p' ch' where "a \<noteq> Main"
      "pstep a (rs_pipe s) (receiving (rs_main s)) (rs_ch s) = Some (p', ch')"
      "s' = s\<lparr>rs_pipe := p', rs_ch := ch'\<rparr>"
  using assms unfolding step_def
  by (auto split: if_splits option.splits)

lemma run_inv_step:
  assumes "run_inv s" "step a s = Some s'"
  shows "run_inv s'"
  using assms(2)
proof (cases rule: step_cases)
  case main
  from main(2) show ?thesis
  proof (cases rule: main_step_cases)
    case (recv r x xs)
    then show ?thesis using assms(1) by (simp add: run_inv_def pinv_set_out)
  next
    case (eof r cerr)
    then show ?thesis using assms(1) by (simp add: run_inv_def)
  next
    case (retnil r)
    then show ?thesis using assms(1) by (simp add: run_inv_def)
  next
    case (reterr r e)
    then show ?thesis using assms(1) pinv_mono [of "ch_e (rs_ch s)" "rs_pipe s" True]
      by (simp add: run_inv_def)
  next
    case (check r)
    then show ?thesis using assms(1) by (simp add: run_inv_def)
  qed
next
  case (pipe p' ch')
  from assms(1) have pi: "pinv (ch_e (rs_ch s)) (rs_pipe s)"
    and ee: "ch_Errs (rs_ch s) \<noteq> [] \<longleftrightarrow> ch_e (rs_ch s)"
    and dr: "receiving (rs_main s) \<or> drained (rs_pipe s)"
    by (simp_all add: run_inv_def)
  have 1: "pinv (ch_e ch') p'"
    by (rule pstep_pinv [OF pipe(2) pi])
  have 2: "ch_Errs ch' \<noteq> [] \<longleftrightarrow> ch_e ch'"
    using pstep_ch [OF pipe(2)] ee by auto
  have 3: "receiving (rs_main s) \<or> drained p'"
    using dr pstep_closed [OF pipe(2) pi] by (auto simp: drained_def)
  have 4: "ch_e ch' = ch_e (rs_ch s)" if "\<not> receiving (rs_main s)"
  proof (cases "ch_e (rs_ch s)")
    case True
    then show ?thesis using pstep_e [OF pipe(2)] by simp
  next
    case False
    from that dr have "drained (rs_pipe s)" by simp
    from drained_finished [OF pi _ this] False have "finished (rs_pipe s)" by simp
    from finished_stuck [OF this] pipe(2) show ?thesis by simp
  qed
  show ?thesis
    using 1 2 3 4 assms(1) pipe(3) by (cases "rs_main s") (simp_all add: run_inv_def)
qed

lemma run_inv_exec: "run_inv s \<Longrightarrow> run_inv (exec sched s)"
proof (induction sched arbitrary: s)
  case Nil
  then show ?case by simp
next
  case (Cons a sched)
  show ?case
  proof (cases "step a s")
    case None
    then show ?thesis using Cons by simp
  next
    case (Some s')
    then show ?thesis using Cons.IH [OF run_inv_step [OF Cons.prems Some]] by simp
  qed
qed

text \<open>The goroutines that \<open>runPipe\<close> starts.\<close>

lemma foldl_conduits:
  "conduits (foldl (\<lambda>src p. Stage src p CRecv c) c0 ks) = rev ks @ conduits c0"
  by (induction ks arbitrary: c0) auto

lemma runPipe_conduits: "conduits (runPipe ch c0) = rev (ch_pipe ch) @ conduits c0"
  by (simp add: runPipe_def foldl_conduits)

lemma foldl_pinv:
  "\<not> chan_closed c \<Longrightarrow> pinv e (foldl (\<lambda>src p. Stage src p CRecv c) c0 ks) = pinv e c0"
  by (induction ks arbitrary: c0) auto

lemma foldl_flow:
  "chan_buf c = [] \<Longrightarrow> flow (foldl (\<lambda>src p. Stage src p CRecv c) c0 ks) = flow c0"
  by (induction ks arbitrary: c0) auto



lemma run_inv_init: "run_inv (Run_init ch)"
  by (cases "ch_p ch")
    (simp add: run_inv_def Run_init_def runPipe_def foldl_pinv make_chan_def reset_def)

lemma flow_inv_init:
  "ch_p ch = Emits xs perr \<Longrightarrow> list_all (\<lambda>k. k = Identity) (ch_pipe ch)
    \<Longrightarrow> flow_inv xs (Run_init ch)"
  by (simp add: flow_inv_def Run_init_def runPipe_conduits)
    (simp add: runPipe_def foldl_flow make_chan_def)


lemma flow_inv_step:
  assumes "flow_inv xs s" "step a s = Some s'"
  shows "flow_inv xs s'"
  using assms(2)
proof (cases rule: step_cases)
  case main
  from main(2) show ?thesis
    using assms(1) by (cases rule: main_step_cases) (auto simp: flow_inv_def dest: flow_pop)
next
  case (pipe p' ch')
  then show ?thesis
    using assms(1) pstep_flow [OF pipe(2)] pstep_conduits [OF pipe(2)]
    by (simp add: flow_inv_def)
qed

lemma flow_inv_exec: "flow_inv xs s \<Longrightarrow> flow_inv xs (exec sched s)"
proof (induction sched arbitrary: s)
  case Nil
  then show ?case by simp
next
  case (Cons a sched)
  show ?case
  proof (cases "step a s")
    case None
    then show ?thesis using Cons by simp
  next
    case (Some s')
    then show ?thesis using Cons.IH [OF flow_inv_step [OF Cons.prems Some]] by simp
  qed
qed



text \<open>Every step lowers the bound, and until \<open>Run\<close> has returned there is a step to take.\<close>

lemma step_weight:
  assumes "step a s = Some s'"
  shows "weight s' < weight s"
  using assms
proof (cases rule: step_cases)
  case main
  from main(2) show ?thesis
    by (cases rule: main_step_cases) (auto simp: weight_def dest: pweight_pop [where d = 1])
next
  case (pipe p' ch')
  then show ?thesis
    using pstep_weight [OF pipe(2), of 1] by (simp add: weight_def)
qed

lemma step_progress:
  assumes "run_inv s" "\<not> returned (rs_main s)"
  shows "\<exists>a s'. step a s = Some s'"
proof (cases "rs_main s")
  case (SRecv r)
  show ?thesis
  proof (cases "chan_buf (out_chan (rs_pipe s)) = [] \<and> \<not> chan_closed (out_chan (rs_pipe s))")
    case True
    from assms(1) have "pinv (ch_e (rs_ch s)) (rs_pipe s)" by (simp add: run_inv_def)
    from pstep_progress [OF this, of "rs_ch s"] True
    obtain a p' ch' where st: "pstep a (rs_pipe s) True (rs_ch s) = Some (p', ch')" by blast
    from pstep_action [OF st] have "a \<noteq> Main" by auto
    then have "step a s = Some (s\<lparr>rs_pipe := p', rs_ch := ch'\<rparr>)"
      using st SRecv by (simp add: step_def)
    then show ?thesis by blast
  next
    case False
    then have "\<exists>s'. main_step s = Some s'"
      using SRecv by (cases "ch_c (rs_ch s)")
        (auto simp: main_step_def split: list.splits)
    then show ?thesis by (auto simp: step_def intro!: exI [of _ Main])
  qed
next
  case (SDone r res)
  then show ?thesis using assms(2) by simp
qed (auto simp: step_def main_step_def intro!: exI [of _ Main])

lemma exec_append: "exec (xs @ ys) s = exec ys (exec xs s)"
  by (induction xs arbitrary: s) auto

text \<open>From every state of a run there is a way on to the return of \<open>Run\<close>.\<close>

lemma run_returns: "run_inv s \<Longrightarrow> \<exists>sched. returned (rs_main (exec sched s))"
proof (induction "weight s" arbitrary: s rule: less_induct)
  case less
  show ?case
  proof (cases "returned (rs_main s)")
    case True
    then have "returned (rs_main (exec [] s))" by simp
    then show ?thesis by blast
  next
    case False
    from step_progress [OF less.prems False] obtain a s' where st: "step a s = Some s'" by blast
    from less.hyps [OF step_weight [OF st] run_inv_step [OF less.prems st]]
    obtain sched where "returned (rs_main (exec sched s'))" by blast
    then have "returned (rs_main (exec (a # sched) s))" using st by simp
    then show ?thesis by blast
  qed
qed

text \<open>What evaluates a run under a given schedule.\<close>

lemmas run_eval = Run_init_def runPipe_def make_chan_def reset_def addErr_def step_def
  main_step_def can_send_def errMsg_def

lemma returned_iff: "returned m \<longleftrightarrow> (\<exists>r res. m = SDone r res)"
  by (cases m) simp_all

text \<open>
  With conduits that are all \<open>Identity\<close>: when \<open>Run\<close> has returned, the consumer has
  received the items that the producer sends, in their order.
\<close>

lemma identity_run_received:
  assumes "ch_p ch = Emits xs perr" "list_all (\<lambda>k. k = Identity) (ch_pipe ch)"
    "rs_main (exec sched (Run_init ch)) = SDone r res"
  shows "r = xs"
proof -
  define s where "s = exec sched (Run_init ch)"
  have ri: "run_inv s"
    unfolding s_def by (rule run_inv_exec [OF run_inv_init])
  have fi: "flow_inv xs s"
    unfolding s_def by (rule flow_inv_exec [OF flow_inv_init [OF assms(1,2)]])
  from ri assms(3) have pi: "pinv (ch_e (rs_ch s)) (rs_pipe s)" and dr: "drained (rs_pipe s)"
    by (simp_all add: run_inv_def s_def)
  from fi have "list_all (\<lambda>k. k = Identity) (conduits (rs_pipe s))"
    by (simp add: flow_inv_def)
  then have "list_all cannot_fail (conduits (rs_pipe s))"
    by (induction "conduits (rs_pipe s)") (auto simp: list_all_iff)
  from drained_finished [OF pi _ dr] this have "flow (rs_pipe s) = []"
    by simp
  with fi assms(3) show ?thesis
    by (simp add: flow_inv_def s_def)
qed






section \<open>The claims\<close>

text \<open>
  C8.  \<open>NewChain\<close> with a \<open>nil\<close> producer or a \<open>nil\<close> consumer yields no chain (the
  result is \<open>nil\<close>, which is how the code reports the failure), and in no other case;
  with a producer and a consumer it yields the chain that holds exactly these two, the
  conduits given (an empty or \<open>nil\<close> pipe included), the buffer size given, the error
  flag unset and no errors.
\<close>

theorem NewChain_result:
  "(NewChain p pipe c sz = None \<longleftrightarrow> p = None \<or> c = None) \<and>
   NewChain (Some p') pipe (Some c') sz =
     Some \<lparr>ch_sz = sz, ch_e = False, ch_p = p', ch_c = c', ch_pipe = pipe, ch_Errs = []\<rparr>"
  by (simp add: NewChain_def split: option.splits)

text \<open>
  C10.  For every sequence of chunks that are all byte slices, whatever their content
  (empty chunks included), \<open>Conduct\<close> runs to the end and returns \<open>nil\<close>: no index into
  \<open>u.lo\<close> or into the chunk and no slice expression is out of range, since every such
  access of the model is checked and none fails.  The state it ends in has a buffer of
  four bytes with at most three in use.
\<close>

theorem Conduct_never_panics:
  "\<exists>u' out. Conduct NewUtf8Conduit (map Bytes chunks) = Inr (u', out, None) \<and> u_ok u'"
  using Conduct_general [OF u_ok_New(1), of chunks] by blast

text \<open>
  C6, as the claim has it: the leftover buffer has capacity three.  It does not: the
  buffer that \<open>NewUtf8Conduit\<close> makes has \<open>utf8.UTFMax\<close> = 4 bytes.
\<close>

theorem leftover_capacity_counterexample:
  "length (u_lo NewUtf8Conduit) \<noteq> 3 \<and> length (u_lo NewUtf8Conduit) = 4"
  by (simp add: New_eq)

text \<open>
  C6, amended: the leftover buffer has \<open>utf8.UTFMax\<close> = 4 bytes, and after every chunk
  of every stream of byte chunks at most three leftover bytes are carried to the next
  chunk (the index is between 0 and 3, the bytes held are at most three).
\<close>

theorem leftover_bounded:
  "length (u_lo NewUtf8Conduit) = nat UTFMax \<and>
   (\<exists>u' out. Conduct NewUtf8Conduit (map Bytes chunks) = Inr (u', out, None)
      \<and> length (u_lo u') = nat UTFMax \<and> 0 \<le> u_idx u' \<and> u_idx u' \<le> 3 \<and> length (held u') \<le> 3)"
proof -
  from Conduct_general [OF u_ok_New(1), of chunks]
  obtain u' out where r: "Conduct NewUtf8Conduit (map Bytes chunks) = Inr (u', out, None)" "u_ok u'"
    by blast
  moreover have "length (held u') \<le> 3"
    using r(2) held_length [OF r(2)] by (auto simp: u_ok_def)
  ultimately show ?thesis
    using u_ok_New(1) by (auto simp: u_ok_def UTFMax_def)
qed

text \<open>
  C7.  The chunks \<open>F0\<close>, \<open>9F\<close>, \<open>98\<close>, \<open>28\<close>: the leftover grows to three bytes, the fourth
  byte fills the buffer and the four bytes are no character.  The conduit sends these
  four bytes as they are (the slice \<open>tmp\<close>), not the replacement marker \<open>u.inv\<close>.
\<close>

theorem invalid_bytes_sent_unreplaced:
  "Conduct NewUtf8Conduit [Bytes [0xF0], Bytes [0x9F], Bytes [0x98], Bytes [0x28]] =
     Inr (\<lparr>u_lo = [0xF0, 0x9F, 0x98, 0x28], u_inv = [0xEF, 0xBF, 0xBD], u_idx = 0\<rparr>,
          [FromTmp [0xF0, 0x9F, 0x98, 0x28]], None)"
  unfolding New_eq by (simp add: conduct_eval cong: prod.case_cong_weak)

text \<open>
  The branch of \<open>addLeftOver\<close> that sends \<open>u.inv\<close> is never taken, whatever the chunks:
  \<open>utf8.FullRune\<close> holds of any four bytes, so the loop returns before \<open>u.idx\<close> can reach
  \<open>utf8.UTFMax\<close>.
\<close>

lemma Conduct_never_sends_inv:
  "\<exists>u' out. Conduct NewUtf8Conduit (map Bytes chunks) = Inr (u', out, None)
     \<and> (\<forall>m. FromInv m \<notin> set out)"
  using Conduct_general [OF u_ok_New(1), of chunks] by blast

text \<open>
  C9, as the claim has it: a non-\<open>[]byte\<close> item gives a stage error instead of a crash.
  It does not: on the item \<open>3\<close> the type assertion of \<open>Conduct\<close> panics, and so does the
  one of the text-mode \<open>Printer.Consume\<close> on a string; neither returns an error.
\<close>

theorem type_mismatch_counterexample:
  "Conduct NewUtf8Conduit [Num 3] = Inl TypeAssertionFailed \<and>
   Printer_Consume (\<lambda>x. []) True [Text ''abc''] = Inl TypeAssertionFailed"
  by (simp add: conductItem_def)

text \<open>
  C9, amended: \<open>Utf8Conduit.Conduct\<close> and the text-mode \<open>Printer.Consume\<close> panic at the
  first item that is not a \<open>[]byte\<close> (the unchecked type assertion; the stage returns no
  error and records none), and when every item is a \<open>[]byte\<close> they run to the end and
  return \<open>nil\<close>.
\<close>

theorem type_mismatch_panics:
  "(if \<exists>x\<in>set items. \<not> isBytes x
    then Conduct NewUtf8Conduit items = Inl TypeAssertionFailed
      \<and> Printer_Consume fmt_v True items = Inl TypeAssertionFailed
    else (\<exists>u' out. Conduct NewUtf8Conduit items = Inr (u', out, None))
      \<and> (\<exists>w. Printer_Consume fmt_v True items = Inr (w, None)))"
  using Conduct_items [OF u_ok_New(1), of items] Printer_Consume_text [of items fmt_v]
  by (auto split: if_splits)

text \<open>
  C2.  The chunks \<open>C3\<close>, \<open>A9 C3\<close>, \<open>BC\<close> are the valid text of U+00E9 and U+00FC (no
  U+FFFD in it), split inside both characters.  \<open>Conduct\<close> returns \<open>nil\<close> and sends two
  slices, both \<open>tmp\<close>, that is both the first two bytes of the leftover buffer.  At the
  first send the buffer holds \<open>C3 A9\<close>, at the second \<open>C3 BC\<close>, so the bytes sent are the
  input; but the first slice views the same array as the second, and once \<open>Conduct\<close> has
  returned both read \<open>C3 BC\<close>.  What the receiver then holds, concatenated, is
  \<open>C3 BC C3 BC\<close> and not the input \<open>C3 A9 C3 BC\<close>.
\<close>

theorem roundtrip_broken_by_shared_buffer:
  "decodable (concat [[0xC3], [0xA9, 0xC3], [0xBC]]) \<and>
   valid_utf8 (concat [[0xC3], [0xA9, 0xC3], [0xBC]]) \<and>
   Conduct NewUtf8Conduit (map Bytes [[0xC3], [0xA9, 0xC3], [0xBC]]) =
     Inr (\<lparr>u_lo = [0xC3, 0xBC, 0, 0], u_inv = [0xEF, 0xBF, 0xBD], u_idx = 0\<rparr>,
          [FromTmp [0xC3, 0xA9], FromTmp [0xC3, 0xBC]], None) \<and>
   concat (map at_send [FromTmp [0xC3, 0xA9], FromTmp [0xC3, 0xBC]]) = [0xC3, 0xA9, 0xC3, 0xBC] \<and>
   concat (map (reads \<lparr>u_lo = [0xC3, 0xBC, 0, 0], u_inv = [0xEF, 0xBF, 0xBD], u_idx = 0\<rparr>)
       [FromTmp [0xC3, 0xA9], FromTmp [0xC3, 0xBC]]) = [0xC3, 0xBC, 0xC3, 0xBC] \<and>
   [0xC3, 0xBC, 0xC3, 0xBC] \<noteq> concat [[0xC3], [0xA9, 0xC3], [0xBC :: byte]]"
  unfolding New_eq by (simp add: conduct_eval decode_steps cong: prod.case_cong_weak)

text \<open>
  A second input on which the round trip fails, whenever the slices are read: the chunks
  \<open>E4 B8\<close> and \<open>AD EF BF BD\<close> are the valid text of U+4E2D and U+FFFD, split inside the
  first character.  The conduit sends \<open>E4 B8 AD\<close> and keeps \<open>EF BF BD\<close> as a leftover that
  it never sends, because \<open>utf8.DecodeLastRune\<close> gives \<open>RuneError\<close> for the valid encoding
  of U+FFFD and \<open>storeLeftOver\<close> takes that for an incomplete character.
\<close>

lemma replacement_char_held_back:
  "valid_utf8 (concat [[0xE4, 0xB8], [0xAD, 0xEF, 0xBF, 0xBD]]) \<and>
   Conduct NewUtf8Conduit (map Bytes [[0xE4, 0xB8], [0xAD, 0xEF, 0xBF, 0xBD]]) =
     Inr (\<lparr>u_lo = [0xEF, 0xBF, 0xBD, 0], u_inv = [0xEF, 0xBF, 0xBD], u_idx = 3\<rparr>,
          [FromTmp [0xE4, 0xB8, 0xAD]], None) \<and>
   concat (map at_send [FromTmp [0xE4, 0xB8, 0xAD]]) \<noteq> concat [[0xE4, 0xB8], [0xAD, 0xEF, 0xBF, 0xBD]]"
  unfolding New_eq by (simp add: conduct_eval decode_steps cong: prod.case_cong_weak)

text \<open>
  What does hold of the round trip: for every text in which no character decodes to
  \<open>utf8.RuneError\<close> (valid UTF-8 without U+FFFD), split into chunks at any boundaries,
  \<open>Conduct\<close> returns \<open>nil\<close> and the bytes that the slices hold at the moment each is
  sent, concatenated, are the input.  This says nothing of what a receiver reads from a
  slice of the leftover buffer later.
\<close>

lemma roundtrip_at_send:
  assumes "decodable (concat chunks)"
  shows "\<exists>u' out. Conduct NewUtf8Conduit (map Bytes chunks) = Inr (u', out, None)
     \<and> concat (map at_send out) = concat chunks"
proof -
  from decodable_chars [OF assms]
  obtain cs where cs: "\<forall>c\<in>set cs. good c" "concat cs = concat chunks"
    by blast
  have "held NewUtf8Conduit @ concat chunks = concat cs @ []"
    using cs(2) by (simp add: u_ok_New(2))
  from Conduct_valid [OF u_ok_New(1) _ this cs(1) partial_Nil]
  show ?thesis
    using cs(2) by (auto simp: u_ok_New(2) partial_Nil)
qed

text \<open>
  C3.  The chunks \<open>41 E4 B8\<close>, \<open>AD F0\<close>, \<open>9F 98 80\<close> are the valid text of \<open>A\<close>, U+4E2D
  and U+1F600 (no U+FFFD in it), split inside the second and the third character.
  \<open>Conduct\<close> returns \<open>nil\<close> and sends \<open>41\<close> and then twice the slice \<open>tmp\<close> of the leftover
  buffer, of three and of four bytes.  The three bytes are \<open>E4 B8 AD\<close> when they are sent;
  the same array then takes the bytes of the next character, and once \<open>Conduct\<close> has
  returned the slice of three bytes reads \<open>F0 9F 98\<close>: a chunk that ends inside the
  four-byte character and is not valid UTF-8.
\<close>

theorem whole_runes_broken_by_shared_buffer:
  "decodable (concat [[0x41, 0xE4, 0xB8], [0xAD, 0xF0], [0x9F, 0x98, 0x80]]) \<and>
   valid_utf8 (concat [[0x41, 0xE4, 0xB8], [0xAD, 0xF0], [0x9F, 0x98, 0x80]]) \<and>
   Conduct NewUtf8Conduit (map Bytes [[0x41, 0xE4, 0xB8], [0xAD, 0xF0], [0x9F, 0x98, 0x80]]) =
     Inr (\<lparr>u_lo = [0xF0, 0x9F, 0x98, 0x80], u_inv = [0xEF, 0xBF, 0xBD], u_idx = 0\<rparr>,
          [FromInput [0x41], FromTmp [0xE4, 0xB8, 0xAD], FromTmp [0xF0, 0x9F, 0x98, 0x80]], None) \<and>
   reads \<lparr>u_lo = [0xF0, 0x9F, 0x98, 0x80], u_inv = [0xEF, 0xBF, 0xBD], u_idx = 0\<rparr>
       (FromTmp [0xE4, 0xB8, 0xAD]) = [0xF0, 0x9F, 0x98] \<and>
   \<not> valid_utf8 [0xF0, 0x9F, 0x98] \<and> \<not> decodable [0xF0, 0x9F, 0x98]"
  unfolding New_eq by (simp add: conduct_eval decode_steps cong: prod.case_cong_weak)

text \<open>
  A second input on which a chunk ends inside a character, whenever the slices are read:
  the chunks \<open>EF BF BD\<close> and \<open>F0 9F 98 80\<close> are U+FFFD and U+1F600, split between the two
  characters.  The conduit holds back the valid \<open>EF BF BD\<close>, completes it with the first
  byte of the next chunk and sends the one chunk \<open>EF BF BD F0\<close>, which ends after the
  first byte of the four-byte character and is not valid UTF-8.
\<close>

lemma replacement_char_glued:
  "valid_utf8 (concat [[0xEF, 0xBF, 0xBD], [0xF0, 0x9F, 0x98, 0x80]]) \<and>
   Conduct NewUtf8Conduit (map Bytes [[0xEF, 0xBF, 0xBD], [0xF0, 0x9F, 0x98, 0x80]]) =
     Inr (\<lparr>u_lo = [0x9F, 0x98, 0x80, 0xF0], u_inv = [0xEF, 0xBF, 0xBD], u_idx = 3\<rparr>,
          [FromTmp [0xEF, 0xBF, 0xBD, 0xF0]], None) \<and>
   \<not> valid_utf8 (at_send (FromTmp [0xEF, 0xBF, 0xBD, 0xF0]))"
  unfolding New_eq by (simp add: conduct_eval decode_steps cong: prod.case_cong_weak)

text \<open>
  What does hold of the chunks: for every text in which no character decodes to
  \<open>utf8.RuneError\<close>, split into chunks at any boundaries, every slice that \<open>Conduct\<close> sends
  is not empty and holds, at the moment it is sent, whole characters of which none is
  \<open>RuneError\<close>.  Again this says nothing of what is read from the slice later.
\<close>

lemma whole_runes_at_send:
  assumes "decodable (concat chunks)"
    and "Conduct NewUtf8Conduit (map Bytes chunks) = Inr (u', out, err)"
    and "x \<in> set out"
  shows "at_send x \<noteq> [] \<and> decodable (at_send x)"
proof -
  from decodable_chars [OF assms(1)]
  obtain cs where cs: "\<forall>c\<in>set cs. good c" "concat cs = concat chunks"
    by blast
  have "held NewUtf8Conduit @ concat chunks = concat cs @ []"
    using cs(2) by (simp add: u_ok_New(2))
  from Conduct_valid [OF u_ok_New(1) _ this cs(1) partial_Nil] assms(2)
  have "\<forall>x\<in>set out. \<exists>cs. cs \<noteq> [] \<and> (\<forall>c\<in>set cs. good c) \<and> at_send x = concat cs"
    by (auto simp: u_ok_New(2) partial_Nil)
  then obtain xs where xs: "xs \<noteq> []" "\<forall>c\<in>set xs. good c" "at_send x = concat xs"
    using assms(3) by blast
  have "concat xs \<noteq> []"
    using xs(1,2) good_nonempty by (cases xs) auto
  then show ?thesis
    using chars_decodable [OF xs(2)] xs(3) by simp
qed

text \<open>
  C1.  A chain whose conduits are all \<open>Identity\<close> (any number of them, none included),
  with a producer that sends the items \<open>xs\<close>, and with channels of any capacity (the
  capacities from 1 on, and 0 as well): under every schedule, when \<open>Run\<close> has returned
  the consumer has received exactly \<open>xs\<close>, nothing lost, nothing twice, in the order sent.
  And \<open>Run\<close> does return: from every state that a schedule leads to there is a way on
  to the return with \<open>xs\<close> received, and every step taken lowers the bound \<open>weight\<close>, so
  no run goes on for ever.
\<close>

theorem Run_delivers_in_order:
  assumes "ch_p ch = Emits xs perr" and "list_all (\<lambda>k. k = Identity) (ch_pipe ch)"
  shows "(\<forall>r res. rs_main (exec sched (Run_init ch)) = SDone r res \<longrightarrow> r = xs) \<and>
    (\<exists>more res. rs_main (exec (sched @ more) (Run_init ch)) = SDone xs res) \<and>
    (\<forall>a s'. step a (exec sched (Run_init ch)) = Some s'
        \<longrightarrow> weight s' < weight (exec sched (Run_init ch)))"
proof (intro conjI allI impI)
  fix r res
  assume "rs_main (exec sched (Run_init ch)) = SDone r res"
  then show "r = xs"
    by (rule identity_run_received [OF assms])
next
  have "run_inv (exec sched (Run_init ch))"
    by (rule run_inv_exec [OF run_inv_init])
  from run_returns [OF this] obtain more r res
    where m: "rs_main (exec (sched @ more) (Run_init ch)) = SDone r res"
    by (auto simp: returned_iff exec_append)
  from identity_run_received [OF assms m] m
  show "\<exists>more res. rs_main (exec (sched @ more) (Run_init ch)) = SDone xs res"
    by blast
next
  fix a s'
  assume "step a (exec sched (Run_init ch)) = Some s'"
  then show "weight s' < weight (exec sched (Run_init ch))"
    by (rule step_weight)
qed

theorem Run_delivers_in_order_witness:
  "rs_main (exec [Go 0, Go 1, Go 1, Main, Go 0, Go 0, Go 0, Go 0, Go 1, Go 1, Main, Go 1, Go 1, Go 1,
         Main, Main, Main]
      (Run_init \<lparr>ch_sz = 1, ch_e = True, ch_p = Emits [Num 7, Num 8] None, ch_c = Collects None,
         ch_pipe = [Identity], ch_Errs = [''old'']\<rparr>))
     = SDone [Num 7, Num 8] None
   \<and> (\<exists>more res. rs_main (exec ([Go 0, Go 1, Go 1, Main, Go 0, Go 0, Go 0, Go 0, Go 1, Go 1, Main, Go 1, Go 1, Go 1,
         Main, Main, Main] @ more)
      (Run_init \<lparr>ch_sz = 1, ch_e = True, ch_p = Emits [Num 7, Num 8] None, ch_c = Collects None,
         ch_pipe = [Identity], ch_Errs = [''old'']\<rparr>))
     = SDone [Num 7, Num 8] res)
   \<and> weight (exec [Go 0]
      (Run_init \<lparr>ch_sz = 1, ch_e = True, ch_p = Emits [Num 7, Num 8] None, ch_c = Collects None,
         ch_pipe = [Identity], ch_Errs = [''old'']\<rparr>))
     < weight (Run_init \<lparr>ch_sz = 1, ch_e = True, ch_p = Emits [Num 7, Num 8] None, ch_c = Collects None,
         ch_pipe = [Identity], ch_Errs = [''old'']\<rparr>)"
proof -
  define ch :: chain where "ch = \<lparr>ch_sz = 1, ch_e = True, ch_p = Emits [Num 7, Num 8] None, ch_c = Collects None,
         ch_pipe = [Identity], ch_Errs = [''old'']\<rparr>"
  define sched where "sched = [Go 0, Go 1, Go 1, Main, Go 0, Go 0, Go 0, Go 0, Go 1, Go 1, Main, Go 1, Go 1, Go 1,
         Main, Main, Main]"
  have e: "rs_main (exec sched (Run_init ch)) = SDone [Num 7, Num 8] None"
    unfolding ch_def sched_def by (simp add: run_eval)
  have p: "ch_p ch = Emits [Num 7, Num 8] None"
    by (simp add: ch_def)
  have k: "list_all (\<lambda>k. k = Identity) (ch_pipe ch)"
    by (simp add: ch_def)
  have st: "step (Go 0) (exec [] (Run_init ch)) = Some (exec [Go 0] (Run_init ch))"
    unfolding ch_def by (simp add: run_eval)
  note t = Run_delivers_in_order [OF p k, of sched]
  note t0 = Run_delivers_in_order [OF p k, of "[]"]
  from t0 [THEN conjunct2, THEN conjunct2] st
  have "weight (exec [Go 0] (Run_init ch)) < weight (exec [] (Run_init ch))"
    by blast
  then have w: "weight (exec [Go 0] (Run_init ch)) < weight (Run_init ch)"
    by (simp only: exec.simps(1))
  from e t [THEN conjunct2, THEN conjunct1] w show ?thesis
    unfolding ch_def sched_def by (intro conjI)
qed







end
